theory Spec2Isabelle
  imports Main "HOL-Library.Word" "HOL-Library.Log_Nat"
begin

unbundle bit_operations_syntax

section \<open>Python values, exceptions and sequencing\<close>

text \<open>
  The source is \<^verbatim>\<open>gridplayer/geo/parse_sei.py\<close>. A Python \<^verbatim>\<open>bytes\<close> object is a list of
  bytes; Python integers are unbounded and are modelled by \<^typ>\<open>int\<close>. Counters that the code
  only increments from zero, or decrements under a guard that keeps them non-negative, are
  \<^typ>\<open>nat\<close>. Every exception the code can raise is a value \<open>Inl e\<close> of the result type.
\<close>

datatype py_error = IndexError | ValueError

type_synonym byte = "8 word"

type_synonym 'a result = "py_error + 'a"

definition py_bind :: "'a result \<Rightarrow> ('a \<Rightarrow> 'b result) \<Rightarrow> 'b result" where
  "py_bind m f = (case m of Inl e \<Rightarrow> Inl e | Inr x \<Rightarrow> f x)"

text \<open>\<^verbatim>\<open>x >> k\<close>: Python raises \<^verbatim>\<open>ValueError: negative shift count\<close> when \<open>k < 0\<close>.\<close>

definition py_rshift :: "int \<Rightarrow> int \<Rightarrow> int result" where
  "py_rshift x k = (if k < 0 then Inl ValueError else Inr (drop_bit (nat k) x))"

text \<open>\<^verbatim>\<open>xs[i]\<close> for a non-negative index: \<^verbatim>\<open>IndexError\<close> when out of range.\<close>

definition py_index :: "'a list \<Rightarrow> nat \<Rightarrow> 'a result" where
  "py_index xs i = (if i < length xs then Inr (xs ! i) else Inl IndexError)"

section \<open>BitReader\<close>

definition MAX_UVLC_LEADING_ZEROS :: nat where
  "MAX_UVLC_LEADING_ZEROS = 20"

definition UVLC_ERROR :: int where
  "UVLC_ERROR = - 99999"

record BitReader =
  data :: "byte list"
  bytes_remaining :: nat
  byte_pos :: nat
  bit_pos :: nat
  nextbits :: int
  nextbits_cnt :: nat

text \<open>
  \<^verbatim>\<open>refill\<close>: while at most 56 bits are buffered and source bytes remain, shift the next
  byte into the accumulator.
\<close>

function refill :: "BitReader \<Rightarrow> BitReader result" where
  "refill r =
     (if nextbits_cnt r \<le> 56 \<and> bytes_remaining r > 0 then
        (case py_index (data r) (byte_pos r) of
           Inl e \<Rightarrow> Inl e
         | Inr new_byte \<Rightarrow>
             refill (r\<lparr>byte_pos := byte_pos r + 1,
                       bytes_remaining := bytes_remaining r - 1,
                       nextbits := (push_bit 8 (nextbits r)) OR uint new_byte,
                       nextbits_cnt := nextbits_cnt r + 8\<rparr>))
      else Inr r)"
  by pat_completeness auto
termination
  by (relation "measure bytes_remaining") auto

declare refill.simps [simp del]

text \<open>\<^verbatim>\<open>BitReader.__init__\<close>\<close>

definition BitReader_init :: "byte list \<Rightarrow> BitReader result" where
  "BitReader_init buffer =
     refill \<lparr>data = buffer, bytes_remaining = length buffer, byte_pos = 0, bit_pos = 0,
             nextbits = 0, nextbits_cnt = 0\<rparr>"

text \<open>
  \<^verbatim>\<open>get_bits(n)\<close>. Every call site passes a non-negative \<open>n\<close>, so \<^verbatim>\<open>1 << n\<close> never raises;
  the right shift by \<^verbatim>\<open>nextbits_cnt - n\<close> raises when fewer than \<open>n\<close> bits are buffered after
  the refill.
\<close>

definition get_bits :: "BitReader \<Rightarrow> nat \<Rightarrow> (int \<times> BitReader) result" where
  "get_bits r0 n =
     py_bind (if nextbits_cnt r0 < n then refill r0 else Inr r0) (\<lambda>r.
     py_bind (py_rshift (nextbits r) (int (nextbits_cnt r) - int n)) (\<lambda>shifted.
       let val = shifted AND (push_bit n 1 - 1);
           cnt = nextbits_cnt r - n
       in Inr (val, r\<lparr>nextbits_cnt := cnt,
                       nextbits := nextbits r AND (push_bit cnt 1 - 1)\<rparr>)))"

text \<open>
  \<^verbatim>\<open>get_uvlc\<close>: the loop that counts leading zero bits, entered with \<open>num_zeros\<close> already
  counted, followed by the offset read.
\<close>

function get_uvlc_from :: "BitReader \<Rightarrow> nat \<Rightarrow> (int \<times> BitReader) result" where
  "get_uvlc_from r num_zeros =
     (case get_bits r 1 of
        Inl e \<Rightarrow> Inl e
      | Inr (b, r1) \<Rightarrow>
          if b = 0 then
            (if num_zeros + 1 > MAX_UVLC_LEADING_ZEROS then Inr (UVLC_ERROR, r1)
             else get_uvlc_from r1 (num_zeros + 1))
          else if num_zeros > 0 then
            py_bind (get_bits r1 num_zeros) (\<lambda>(offset, r2).
              Inr (offset + push_bit num_zeros 1 - 1, r2))
          else Inr (0, r1))"
  by pat_completeness auto
termination
  by (relation "measure (\<lambda>(r, num_zeros). Suc MAX_UVLC_LEADING_ZEROS - num_zeros)") auto

declare get_uvlc_from.simps [simp del]

definition get_uvlc :: "BitReader \<Rightarrow> (int \<times> BitReader) result" where
  "get_uvlc r = get_uvlc_from r 0"

definition get_svlc :: "BitReader \<Rightarrow> (int \<times> BitReader) result" where
  "get_svlc r =
     py_bind (get_uvlc r) (\<lambda>(v, r1).
       if v = 0 \<or> v = UVLC_ERROR then Inr (v, r1)
       else let negative = (v AND 1 = 0)
            in Inr (if negative then - (v div 2) else (v + 1) div 2, r1))"

section \<open>SEI field decoder\<close>

text \<open>
  \<^verbatim>\<open>FieldOfViewInfo\<close> and \<^verbatim>\<open>SEI_6DOF\<close>. The fields of \<^verbatim>\<open>FieldOfViewInfo\<close> carry the prefix
  \<open>fov_\<close> (the source calls them \<^verbatim>\<open>id\<close>, \<^verbatim>\<open>x\<close>, \<^verbatim>\<open>y\<close>, \<^verbatim>\<open>width\<close>, \<^verbatim>\<open>height\<close>). A field
  that \<^verbatim>\<open>SEI_6DOF.__init__\<close> sets to \<^verbatim>\<open>None\<close> is an \<^typ>\<open>int option\<close>.
\<close>

record FieldOfViewInfo =
  fov_id :: int
  fov_x :: int
  fov_y :: int
  fov_width :: int
  fov_height :: int

record SEI_6DOF =
  uuid_string :: string
  stitching_layout :: "int option"
  camera_number :: int
  camera_model :: "int option"
  camera_resolution_x :: int
  camera_resolution_y :: int
  video_resolution_x :: int
  video_resolution_y :: int
  texture_padding_size :: int
  background_texture_flag :: int
  background_depth_flag :: "int option"
  arrangement_flag :: "int option"
  horizontal_half_fov :: int
  texture_top_left_x :: "int list"
  texture_top_left_y :: "int list"
  texture_bottom_right_x :: "int list"
  texture_bottom_right_y :: "int list"

definition SEI_6DOF_init :: SEI_6DOF where
  "SEI_6DOF_init =
     \<lparr>uuid_string = [], stitching_layout = None, camera_number = 0, camera_model = None,
      camera_resolution_x = 0, camera_resolution_y = 0, video_resolution_x = 0,
      video_resolution_y = 0, texture_padding_size = 0, background_texture_flag = 0,
      background_depth_flag = None, arrangement_flag = None, horizontal_half_fov = 0,
      texture_top_left_x = [], texture_top_left_y = [], texture_bottom_right_x = [],
      texture_bottom_right_y = []\<rparr>"

definition is_valid :: "SEI_6DOF \<Rightarrow> bool" where
  "is_valid sei \<longleftrightarrow> uuid_string sei = ''_6dof_extension_''"

text \<open>
  The first loop of \<^verbatim>\<open>read_sei_6dof\<close>: \<open>k\<close> more times, read 8 bits and append the
  character with that code point (\<^verbatim>\<open>chr\<close> of a value below 256).
\<close>

fun read_uuid :: "nat \<Rightarrow> BitReader \<Rightarrow> SEI_6DOF \<Rightarrow> (SEI_6DOF \<times> BitReader) result" where
  "read_uuid 0 r sei = Inr (sei, r)"
| "read_uuid (Suc k) r sei =
     py_bind (get_bits r 8) (\<lambda>(c, r1).
       read_uuid k r1 (sei\<lparr>uuid_string := uuid_string sei @ [char_of c]\<rparr>))"

text \<open>The fixed-layout fields between the tag and the rectangles.\<close>

definition read_sei_header :: "BitReader \<Rightarrow> SEI_6DOF \<Rightarrow> (SEI_6DOF \<times> BitReader) result" where
  "read_sei_header r0 sei0 =
     py_bind (get_bits r0 2) (\<lambda>(v_layout, r).
     py_bind (get_bits r 16) (\<lambda>(v_number, r).
     py_bind (get_bits r 2) (\<lambda>(v_model, r).
     py_bind (get_bits r 1) (\<lambda>(_, r).
     py_bind (get_bits r 16) (\<lambda>(v_cam_x, r).
     py_bind (get_bits r 1) (\<lambda>(_, r).
     py_bind (get_bits r 16) (\<lambda>(v_cam_y, r).
     py_bind (get_bits r 1) (\<lambda>(_, r).
     py_bind (get_bits r 16) (\<lambda>(v_vid_x, r).
     py_bind (get_bits r 1) (\<lambda>(_, r).
     py_bind (get_bits r 16) (\<lambda>(v_vid_y, r).
     py_bind (get_bits r 1) (\<lambda>(_, r).
     py_bind (get_bits r 8) (\<lambda>(v_padding, r).
     py_bind (get_bits r 1) (\<lambda>(v_bg_texture, r).
     py_bind (get_bits r 1) (\<lambda>(v_bg_depth, r).
     py_bind (get_bits r 1) (\<lambda>(_, r).
     py_bind (get_bits r 1) (\<lambda>(v_arrangement, r).
     py_bind (get_bits r 8) (\<lambda>(v_half_fov, r).
     py_bind (get_bits r 3) (\<lambda>(_, r).
       Inr (sei0\<lparr>stitching_layout := Some v_layout,
                  camera_number := v_number,
                  camera_model := Some v_model,
                  camera_resolution_x := v_cam_x,
                  camera_resolution_y := v_cam_y,
                  video_resolution_x := v_vid_x,
                  video_resolution_y := v_vid_y,
                  texture_padding_size := v_padding,
                  background_texture_flag := v_bg_texture,
                  background_depth_flag := Some v_bg_depth,
                  arrangement_flag := Some v_arrangement,
                  horizontal_half_fov := v_half_fov\<rparr>, r))))))))))))))))))))"

text \<open>The second loop: \<open>k\<close> more rectangles, appended to \<^verbatim>\<open>fov_info_array\<close>.\<close>

fun read_fovs ::
  "nat \<Rightarrow> BitReader \<Rightarrow> FieldOfViewInfo list \<Rightarrow> (FieldOfViewInfo list \<times> BitReader) result"
where
  "read_fovs 0 r fov_info_array = Inr (fov_info_array, r)"
| "read_fovs (Suc k) r0 fov_info_array =
     py_bind (get_bits r0 16) (\<lambda>(top_left_x, r).
     py_bind (get_bits r 1) (\<lambda>(_, r).
     py_bind (get_bits r 16) (\<lambda>(top_left_y, r).
     py_bind (get_bits r 1) (\<lambda>(_, r).
     py_bind (get_bits r 16) (\<lambda>(bottom_right_x, r).
     py_bind (get_bits r 1) (\<lambda>(_, r).
     py_bind (get_bits r 16) (\<lambda>(bottom_right_y, r).
     py_bind (get_bits r 1) (\<lambda>(_, r).
     py_bind (get_bits r 4) (\<lambda>(_, r).
       read_fovs k r
         (fov_info_array @
          [\<lparr>fov_id = int (length fov_info_array) + 1, fov_x = top_left_x, fov_y = top_left_y,
            fov_width = bottom_right_x - top_left_x,
            fov_height = bottom_right_y - top_left_y\<rparr>]))))))))))"

text \<open>
  \<^verbatim>\<open>read_sei_6dof\<close> returns the pair \<^verbatim>\<open>(sei, fov_info_array)\<close>, with \<^verbatim>\<open>None\<close> for the record
  when the tag does not match; the reader it has advanced is returned beside the pair.
\<close>

definition read_sei_6dof ::
  "BitReader \<Rightarrow> ((SEI_6DOF option \<times> FieldOfViewInfo list) \<times> BitReader) result"
where
  "read_sei_6dof reader =
     py_bind (read_uuid 16 reader SEI_6DOF_init) (\<lambda>(sei, r).
       if \<not> is_valid sei then Inr ((None, []), r)
       else
         py_bind (read_sei_header r sei) (\<lambda>(sei, r).
         py_bind (read_fovs (nat (camera_number sei)) r []) (\<lambda>(fov_info_array, r).
           Inr ((Some sei, fov_info_array), r))))"

section \<open>TS demuxer\<close>

definition VIDEO_PID :: int where
  "VIDEO_PID = 0x100"

definition TS_PACKET_SIZE :: nat where
  "TS_PACKET_SIZE = 188"

text \<open>
  The body of the loop of \<^verbatim>\<open>extract_h265_nal_from_ts\<close> on one packet, from the state
  \<^verbatim>\<open>(nal_data, start_of_nal)\<close>. A \<^verbatim>\<open>continue\<close> returns the state unchanged; indexing the
  packet raises where the packet is too short; slicing never raises. The message printed for
  a missing sync byte is not modelled.
\<close>

definition demux_packet ::
  "byte list \<times> bool \<Rightarrow> byte list \<Rightarrow> (byte list \<times> bool) result"
where
  "demux_packet st packet =
     (case st of (nal_data, start_of_nal) \<Rightarrow>
      py_bind (py_index packet 0) (\<lambda>b0.
      if uint b0 \<noteq> 0x47 then Inr st
      else
        py_bind (py_index packet 1) (\<lambda>b1.
        py_bind (py_index packet 2) (\<lambda>b2.
        let pid = push_bit 8 (uint b1 AND 0x1F) OR uint b2 in
        if pid \<noteq> VIDEO_PID then Inr st
        else
          let payload_unit_start = uint b1 AND 0x40 in
          py_bind (py_index packet 3) (\<lambda>b3.
          py_bind (if uint b3 AND 0x20 \<noteq> 0
                   then py_bind (py_index packet 4) (\<lambda>b4. Inr (4 + (1 + unat b4)))
                   else Inr 4) (\<lambda>payload_start.
          if payload_start \<ge> TS_PACKET_SIZE then Inr st
          else if payload_unit_start \<noteq> 0 then
            (let nal_data1 = (if start_of_nal then nal_data @ [0, 0, 1] else nal_data) in
             py_bind (if take 3 (drop payload_start packet) = [0, 0, 1]
                      then py_bind (py_index packet (payload_start + 8)) (\<lambda>b.
                             Inr (payload_start + (9 + nat (uint b AND 0x0F))))
                      else Inr payload_start) (\<lambda>payload_start1.
               Inr (nal_data1 @ drop payload_start1 packet, True)))
          else Inr (nal_data @ drop payload_start packet, start_of_nal)))))))"

text \<open>
  The loop \<^verbatim>\<open>for i in range(0, len(ts_stream), TS_PACKET_SIZE)\<close>, entered at index \<open>i\<close>, with
  \<^verbatim>\<open>packet = ts_stream[i:i + TS_PACKET_SIZE]\<close>.
\<close>

function demux_loop :: "byte list \<Rightarrow> nat \<Rightarrow> byte list \<times> bool \<Rightarrow> (byte list \<times> bool) result" where
  "demux_loop ts_stream i st =
     (if i < length ts_stream then
        (case demux_packet st (take TS_PACKET_SIZE (drop i ts_stream)) of
           Inl e \<Rightarrow> Inl e
         | Inr st1 \<Rightarrow> demux_loop ts_stream (i + TS_PACKET_SIZE) st1)
      else Inr st)"
  by pat_completeness auto
termination
  by (relation "measure (\<lambda>(ts_stream, i, st). length ts_stream - i)")
     (auto simp: TS_PACKET_SIZE_def)

declare demux_loop.simps [simp del]

definition extract_h265_nal_from_ts :: "byte list \<Rightarrow> byte list result" where
  "extract_h265_nal_from_ts ts_stream =
     py_bind (demux_loop ts_stream 0 ([], False)) (\<lambda>(nal_data, start_of_nal). Inr nal_data)"

section \<open>Extension locator and pipeline\<close>

text \<open>\<^verbatim>\<open>bytes.find\<close>: the index of the first occurrence of \<open>sub\<close>, if any.\<close>

fun bytes_find :: "byte list \<Rightarrow> byte list \<Rightarrow> nat option" where
  "bytes_find sub [] = (if sub = [] then Some 0 else None)"
| "bytes_find sub (b # bs) =
     (if take (length sub) (b # bs) = sub then Some 0
      else map_option Suc (bytes_find sub bs))"

definition extension_string :: "byte list" where
  "extension_string = map of_char ''_6dof_extension_''"

definition find_6dof_extension_in_nal :: "byte list \<Rightarrow> byte list option" where
  "find_6dof_extension_in_nal nal_data =
     (case bytes_find extension_string nal_data of
        None \<Rightarrow> None
      | Some idx \<Rightarrow> Some (drop idx nal_data))"

text \<open>
  \<^verbatim>\<open>process_ts_file\<close> returns \<^verbatim>\<open>None\<close> or the JSON text of \<^verbatim>\<open>convert_to_json\<close>, which lists
  the fields of the record and of the rectangles one by one; the model returns the record and
  the rectangles themselves. The messages it prints are not modelled.
\<close>

definition process_ts_file :: "byte list \<Rightarrow> (SEI_6DOF \<times> FieldOfViewInfo list) option result" where
  "process_ts_file ts_data =
     py_bind (extract_h265_nal_from_ts ts_data) (\<lambda>nal_data.
       if nal_data = [] then Inr None
       else
         (case find_6dof_extension_in_nal nal_data of
            None \<Rightarrow> Inr None
          | Some new_nal_data \<Rightarrow>
              if new_nal_data = [] then Inr None
              else
                py_bind (BitReader_init new_nal_data) (\<lambda>reader.
                py_bind (read_sei_6dof reader) (\<lambda>((sei_c, fov_info_array), reader1).
                  (case sei_c of
                     None \<Rightarrow> Inr None
                   | Some sei \<Rightarrow> Inr (Some (sei, fov_info_array)))))))"


section \<open>Notions used to state the properties\<close>

text \<open>
  The bits a reader has still to deliver, most significant first: the buffered bits of the
  accumulator followed by the bits of the unread source bytes. \<open>int_bits n x\<close> lists the low
  \<open>n\<close> bits of \<open>x\<close>, \<open>bits_val\<close> reads a list of bits as an unsigned number.
\<close>

fun int_bits :: "nat \<Rightarrow> int \<Rightarrow> bool list" where
  "int_bits 0 x = []"
| "int_bits (Suc n) x = bit x n # int_bits n x"

fun bits_val :: "bool list \<Rightarrow> int" where
  "bits_val [] = 0"
| "bits_val (b # bs) = of_bool b * 2 ^ length bs + bits_val bs"

definition pending_bits :: "BitReader \<Rightarrow> bool list" where
  "pending_bits r =
     int_bits (nextbits_cnt r) (nextbits r) @
     concat (map (\<lambda>b. int_bits 8 (uint b)) (drop (byte_pos r) (data r)))"

definition reader_ok :: "BitReader \<Rightarrow> bool" where
  "reader_ok r \<longleftrightarrow> byte_pos r + bytes_remaining r = length (data r)"


text \<open>
  The canonical unsigned exponential-Golomb code of \<open>v\<close>: with \<open>z + 1\<close> the number of binary
  digits of \<open>v + 1\<close>, \<open>z\<close> zero bits followed by the \<open>z + 1\<close> digits of \<open>v + 1\<close>. The bytes of a
  32-bit value, most significant first, and the bits of a byte buffer.
\<close>

definition ue_encode :: "nat \<Rightarrow> bool list" where
  "ue_encode v =
     (let z = floorlog 2 (v + 1) - 1
      in replicate z False @ int_bits (Suc z) (int v + 1))"

definition be_bytes32 :: "32 word \<Rightarrow> byte list" where
  "be_bytes32 w = [ucast (drop_bit 24 w), ucast (drop_bit 16 w), ucast (drop_bit 8 w), ucast w]"

definition byte_bits :: "byte list \<Rightarrow> bool list" where
  "byte_bits bs = concat (map (\<lambda>b. int_bits 8 (uint b)) bs)"


text \<open>
  The fields of one transport packet as the demuxer reads them: the 13-bit PID, where the
  payload starts behind the header and the adaptation field, the payload-unit-start flag,
  whether the payload starts with the PES start code, and the bytes the packet contributes.
  A packet is accepted when it has the sync byte and the target PID and its payload starts
  inside the packet size; \<open>header_in_range\<close> says that the packet holds every byte the demuxer
  indexes in it. \<open>ts_packets\<close> cuts a stream into the slices the loop visits,
  \<open>demux_packets\<close> runs the loop body over a list of packets, and \<open>nal_pieces\<close> lists what
  each packet appends to the output, given whether a unit start was seen before.
\<close>

definition packet_pid :: "byte list \<Rightarrow> int" where
  "packet_pid p = push_bit 8 (uint (p ! 1) AND 0x1F) OR uint (p ! 2)"

definition payload_start_of :: "byte list \<Rightarrow> nat" where
  "payload_start_of p = (if uint (p ! 3) AND 0x20 \<noteq> 0 then 4 + (1 + unat (p ! 4)) else 4)"

definition unit_start :: "byte list \<Rightarrow> bool" where
  "unit_start p \<longleftrightarrow> uint (p ! 1) AND 0x40 \<noteq> 0"

definition pes_header_at :: "byte list \<Rightarrow> bool" where
  "pes_header_at p \<longleftrightarrow> take 3 (drop (payload_start_of p) p) = [0, 0, 1]"

definition accepted :: "byte list \<Rightarrow> bool" where
  "accepted p \<longleftrightarrow>
     uint (p ! 0) = 0x47 \<and> packet_pid p = VIDEO_PID \<and> payload_start_of p < TS_PACKET_SIZE"

definition detected_unit_start :: "byte list \<Rightarrow> bool" where
  "detected_unit_start p \<longleftrightarrow> accepted p \<and> unit_start p"

definition payload_of :: "byte list \<Rightarrow> byte list" where
  "payload_of p =
     (if unit_start p \<and> pes_header_at p
      then drop (payload_start_of p +
                 (9 + nat (uint (p ! (payload_start_of p + 8)) AND 0x0F))) p
      else drop (payload_start_of p) p)"

definition header_in_range :: "byte list \<Rightarrow> bool" where
  "header_in_range p \<longleftrightarrow>
     p \<noteq> [] \<and>
     (uint (p ! 0) = 0x47 \<longrightarrow>
        3 \<le> length p \<and>
        (packet_pid p = VIDEO_PID \<longrightarrow>
           4 \<le> length p \<and>
           (uint (p ! 3) AND 0x20 \<noteq> 0 \<longrightarrow> 5 \<le> length p) \<and>
           (payload_start_of p < TS_PACKET_SIZE \<and> unit_start p \<and> pes_header_at p \<longrightarrow>
              payload_start_of p + 8 < length p)))"

function ts_packets :: "byte list \<Rightarrow> byte list list" where
  "ts_packets ts =
     (if ts = [] then [] else take TS_PACKET_SIZE ts # ts_packets (drop TS_PACKET_SIZE ts))"
  by pat_completeness auto
termination
  by (relation "measure length") (auto simp: TS_PACKET_SIZE_def)

declare ts_packets.simps [simp del]

fun demux_packets :: "byte list list \<Rightarrow> byte list \<times> bool \<Rightarrow> (byte list \<times> bool) result" where
  "demux_packets [] st = Inr st"
| "demux_packets (p # ps) st =
     (case demux_packet st p of Inl e \<Rightarrow> Inl e | Inr st1 \<Rightarrow> demux_packets ps st1)"

fun nal_pieces :: "bool \<Rightarrow> byte list list \<Rightarrow> byte list list" where
  "nal_pieces s [] = []"
| "nal_pieces s (p # ps) =
     (if accepted p
      then ((if unit_start p \<and> s then [0, 0, 1] else []) @ payload_of p) #
           nal_pieces (s \<or> unit_start p) ps
      else [] # nal_pieces s ps)"


text \<open>
  The decoder reads a fixed sequence of fields. \<open>read_fields\<close> reads fields of the given
  widths one after the other and \<open>field_vals\<close> cuts the same fields out of a list of bits;
  \<open>bits_chars\<close> reads \<open>k\<close> characters of 8 bits. \<open>header_widths\<close> and \<open>fov_widths\<close> are the
  widths the decoder asks for, in its order, marker and reserved bits included;
  \<open>header_record\<close> and \<open>fov_record\<close> store the values at the positions the decoder keeps.
  \<open>decoded_sei\<close> and \<open>decoded_fovs\<close> read a whole record and \<open>k\<close> rectangles from a list of
  bits, and \<open>camera_count\<close> is the 16-bit field behind the tag and the 2-bit layout.
\<close>

fun read_fields :: "nat list \<Rightarrow> BitReader \<Rightarrow> (int list \<times> BitReader) result" where
  "read_fields [] r = Inr ([], r)"
| "read_fields (n # ns) r =
     py_bind (get_bits r n) (\<lambda>(v, r1).
     py_bind (read_fields ns r1) (\<lambda>(vs, r2). Inr (v # vs, r2)))"

fun field_vals :: "nat list \<Rightarrow> bool list \<Rightarrow> int list" where
  "field_vals [] bs = []"
| "field_vals (n # ns) bs = bits_val (take n bs) # field_vals ns (drop n bs)"

fun bits_chars :: "nat \<Rightarrow> bool list \<Rightarrow> string" where
  "bits_chars 0 bs = []"
| "bits_chars (Suc k) bs = char_of (bits_val (take 8 bs)) # bits_chars k (drop 8 bs)"

definition header_widths :: "nat list" where
  "header_widths = [2, 16, 2, 1, 16, 1, 16, 1, 16, 1, 16, 1, 8, 1, 1, 1, 1, 8, 3]"

definition fov_widths :: "nat list" where
  "fov_widths = [16, 1, 16, 1, 16, 1, 16, 1, 4]"

definition header_record :: "SEI_6DOF \<Rightarrow> int list \<Rightarrow> SEI_6DOF" where
  "header_record sei vs =
     sei\<lparr>stitching_layout := Some (vs ! 0),
         camera_number := vs ! 1,
         camera_model := Some (vs ! 2),
         camera_resolution_x := vs ! 4,
         camera_resolution_y := vs ! 6,
         video_resolution_x := vs ! 8,
         video_resolution_y := vs ! 10,
         texture_padding_size := vs ! 12,
         background_texture_flag := vs ! 13,
         background_depth_flag := Some (vs ! 14),
         arrangement_flag := Some (vs ! 16),
         horizontal_half_fov := vs ! 17\<rparr>"

definition fov_record :: "nat \<Rightarrow> int list \<Rightarrow> FieldOfViewInfo" where
  "fov_record i vs =
     \<lparr>fov_id = int i + 1, fov_x = vs ! 0, fov_y = vs ! 2,
      fov_width = vs ! 4 - vs ! 0, fov_height = vs ! 6 - vs ! 2\<rparr>"

definition decoded_sei :: "bool list \<Rightarrow> SEI_6DOF" where
  "decoded_sei bs =
     header_record (SEI_6DOF_init\<lparr>uuid_string := bits_chars 16 bs\<rparr>)
       (field_vals header_widths (drop 128 bs))"

fun decoded_fovs :: "nat \<Rightarrow> nat \<Rightarrow> bool list \<Rightarrow> FieldOfViewInfo list" where
  "decoded_fovs i 0 bs = []"
| "decoded_fovs i (Suc k) bs =
     fov_record i (field_vals fov_widths bs) # decoded_fovs (Suc i) k (drop 72 bs)"

definition camera_count :: "bool list \<Rightarrow> nat" where
  "camera_count bs = nat (bits_val (take 16 (drop 130 bs)))"


section \<open>The bit reader delivers the pending bits\<close>

lemma mask_as: "push_bit n (1::int) - 1 = mask n"
  by (simp add: mask_eq_exp_minus_1)

lemma length_int_bits [simp]: "length (int_bits n x) = n"
  by (induction n) auto

lemma int_bits_split: "int_bits (m + n) x = int_bits m (drop_bit n x) @ int_bits n x"
  by (induction m) (auto simp: bit_drop_bit_eq add.commute)

lemma bits_val_int_bits: "bits_val (int_bits n x) = take_bit n x"
  by (induction n) (auto simp: take_bit_Suc_from_most)

lemma int_bits_cong: "take_bit n x = take_bit n y \<Longrightarrow> int_bits n x = int_bits n y"
proof (induction n)
  case 0
  then show ?case by simp
next
  case (Suc n)
  from Suc.prems have "bit (take_bit (Suc n) x) n = bit (take_bit (Suc n) y) n" by simp
  then have b: "bit x n = bit y n" by (simp add: bit_take_bit_iff)
  from Suc.prems have "take_bit n (take_bit (Suc n) x) = take_bit n (take_bit (Suc n) y)" by simp
  then have "take_bit n x = take_bit n y" by (simp add: min_def)
  with Suc.IH b show ?case by simp
qed

lemma int_bits_take_bit: "int_bits n (take_bit n x) = int_bits n x"
  by (rule int_bits_cong) simp

lemma int_bits_byte_in:
  "int_bits (c + 8) (push_bit 8 x OR uint (b::byte)) = int_bits c x @ int_bits 8 (uint b)"
proof -
  have d: "drop_bit 8 (uint b) = 0"
    by (simp add: drop_bit_eq_div uint_lt2p[of b, simplified] div_pos_pos_trivial)
  have "drop_bit 8 (push_bit 8 x OR uint b) = x"
    by (simp add: drop_bit_or d drop_bit_push_bit)
  moreover have "take_bit 8 (push_bit 8 x OR uint b) = take_bit 8 (uint b)"
    by (simp add: take_bit_or take_bit_push_bit)
  ultimately show ?thesis
    using int_bits_split[of c 8 "push_bit 8 x OR uint b"] int_bits_cong by metis 
qed

lemma refill_ok:
  "reader_ok r \<Longrightarrow>
   \<exists>r'. refill r = Inr r' \<and> reader_ok r' \<and> pending_bits r' = pending_bits r \<and>
        (56 < nextbits_cnt r' \<or> bytes_remaining r' = 0)"
proof (induction r rule: refill.induct)
  case (1 r)
  show ?case
  proof (cases "nextbits_cnt r \<le> 56 \<and> bytes_remaining r > 0")
    case False
    then show ?thesis using "1.prems" by (subst refill.simps) auto
  next
    case True
    with "1.prems" have lt: "byte_pos r < length (data r)" by (simp add: reader_ok_def)
    define b where "b = data r ! byte_pos r"
    define r1 where "r1 = r\<lparr>byte_pos := byte_pos r + 1,
                       bytes_remaining := bytes_remaining r - 1,
                       nextbits := (push_bit 8 (nextbits r)) OR uint b,
                       nextbits_cnt := nextbits_cnt r + 8\<rparr>"
    have idx: "py_index (data r) (byte_pos r) = Inr b" using lt by (simp add: py_index_def b_def)
    have ok1: "reader_ok r1" using "1.prems" True unfolding reader_ok_def r1_def by simp arith
    have "drop (byte_pos r) (data r) = b # drop (Suc (byte_pos r)) (data r)"
      using lt by (simp add: b_def Cons_nth_drop_Suc)
    then have pb: "pending_bits r1 = pending_bits r"
      by (simp add: pending_bits_def r1_def int_bits_byte_in)
    from "1.IH"[OF True idx, folded r1_def, OF ok1] obtain r' where
      r': "refill r1 = Inr r'" "reader_ok r'" "pending_bits r' = pending_bits r1"
      "56 < nextbits_cnt r' \<or> bytes_remaining r' = 0" by blast
    have "refill r = refill r1" using True idx by (subst refill.simps) (simp add: r1_def)
    then show ?thesis using r' pb by auto
  qed
qed

lemma length_pending_bits:
  "length (pending_bits r) = nextbits_cnt r + 8 * (length (data r) - byte_pos r)"
  by (simp add: pending_bits_def length_concat comp_def sum_list_triv)

lemma get_bits_buffered:
  assumes "n \<le> nextbits_cnt r"
  shows "py_bind (py_rshift (nextbits r) (int (nextbits_cnt r) - int n)) (\<lambda>shifted.
       let val = shifted AND (push_bit n 1 - 1);
           cnt = nextbits_cnt r - n
       in Inr (val, r\<lparr>nextbits_cnt := cnt,
                       nextbits := nextbits r AND (push_bit cnt 1 - 1)\<rparr>))
     = Inr (bits_val (take n (pending_bits r)),
            r\<lparr>nextbits_cnt := nextbits_cnt r - n,
              nextbits := take_bit (nextbits_cnt r - n) (nextbits r)\<rparr>)"
    and "pending_bits (r\<lparr>nextbits_cnt := nextbits_cnt r - n,
              nextbits := take_bit (nextbits_cnt r - n) (nextbits r)\<rparr>) = drop n (pending_bits r)"
proof -
  define c where "c = nextbits_cnt r - n"
  have cn: "nextbits_cnt r = n + c" using assms by (simp add: c_def)
  have sp: "int_bits (nextbits_cnt r) (nextbits r) =
        int_bits n (drop_bit c (nextbits r)) @ int_bits c (nextbits r)"
    unfolding cn by (rule int_bits_split)
  have t: "take n (pending_bits r) = int_bits n (drop_bit c (nextbits r))"
    by (simp add: pending_bits_def sp)
  have sh: "py_rshift (nextbits r) (int (nextbits_cnt r) - int n) = Inr (drop_bit c (nextbits r))"
    using assms by (simp add: py_rshift_def c_def nat_diff_distrib' flip: of_nat_diff)
  show "py_bind (py_rshift (nextbits r) (int (nextbits_cnt r) - int n)) (\<lambda>shifted.
       let val = shifted AND (push_bit n 1 - 1);
           cnt = nextbits_cnt r - n
       in Inr (val, r\<lparr>nextbits_cnt := cnt,
                       nextbits := nextbits r AND (push_bit cnt 1 - 1)\<rparr>))
     = Inr (bits_val (take n (pending_bits r)),
            r\<lparr>nextbits_cnt := nextbits_cnt r - n,
              nextbits := take_bit (nextbits_cnt r - n) (nextbits r)\<rparr>)"
    by (simp add: sh py_bind_def Let_def t bits_val_int_bits take_bit_eq_mask mask_eq_exp_minus_1 c_def)
  show "pending_bits (r\<lparr>nextbits_cnt := nextbits_cnt r - n,
              nextbits := take_bit (nextbits_cnt r - n) (nextbits r)\<rparr>) = drop n (pending_bits r)"
    by (simp add: pending_bits_def sp int_bits_take_bit flip: c_def)
qed

lemma get_bits_ok:
  assumes ok: "reader_ok r" and n57: "n \<le> 57" and avail: "n \<le> length (pending_bits r)"
  shows "\<exists>r'. get_bits r n = Inr (bits_val (take n (pending_bits r)), r') \<and>
              reader_ok r' \<and> pending_bits r' = drop n (pending_bits r)"
proof -
  obtain r1 where r1: "(if nextbits_cnt r < n then refill r else Inr r) = Inr r1"
    "reader_ok r1" "pending_bits r1 = pending_bits r" "n \<le> nextbits_cnt r1"
  proof (cases "nextbits_cnt r < n")
    case False
    then show ?thesis using that[of r] ok by simp
  next
    case True
    from refill_ok[OF ok] obtain r' where r': "refill r = Inr r'" "reader_ok r'"
      "pending_bits r' = pending_bits r" "56 < nextbits_cnt r' \<or> bytes_remaining r' = 0"
      by blast
    have "n \<le> nextbits_cnt r'"
    proof (cases "56 < nextbits_cnt r'")
      case True
      then show ?thesis using n57 by simp
    next
      case False
      with r'(4) have "bytes_remaining r' = 0" by simp
      with r'(2) have "length (pending_bits r') = nextbits_cnt r'"
        by (simp add: length_pending_bits reader_ok_def)
      then show ?thesis using avail r'(3) by simp
    qed
    then show ?thesis using that[of r'] r' True by simp
  qed
  let ?r' = "r1\<lparr>nextbits_cnt := nextbits_cnt r1 - n,
              nextbits := take_bit (nextbits_cnt r1 - n) (nextbits r1)\<rparr>"
  have "get_bits r n = Inr (bits_val (take n (pending_bits r)), ?r')"
    unfolding get_bits_def r1(1) using get_bits_buffered(1)[OF r1(4)] r1(3)
    by (simp add: py_bind_def)
  moreover have "reader_ok ?r'" using r1(2) by (simp add: reader_ok_def)
  moreover have "pending_bits ?r' = drop n (pending_bits r)"
    using get_bits_buffered(2)[OF r1(4)] r1(3) by simp
  ultimately show ?thesis by blast
qed

lemma get_bits_short:
  assumes ok: "reader_ok r" and short: "length (pending_bits r) < n"
  shows "get_bits r n = Inl ValueError"
proof -
  from short have lt: "nextbits_cnt r < n" by (simp add: length_pending_bits)
  from refill_ok[OF ok] obtain r' where r': "refill r = Inr r'" "reader_ok r'"
      "pending_bits r' = pending_bits r" by blast
  have "nextbits_cnt r' \<le> length (pending_bits r')" by (simp add: length_pending_bits)
  with short r'(3) have "nextbits_cnt r' < n" by simp
  then show ?thesis
    by (simp add: get_bits_def lt r'(1) py_bind_def py_rshift_def)
qed

lemma get_bits_range:
  assumes "get_bits r n = Inr (v, r')"
  shows "0 \<le> v \<and> v < 2 ^ n"
  using assms
  by (auto simp: get_bits_def py_bind_def py_rshift_def Let_def mask_as
      simp flip: take_bit_eq_mask split: sum.splits if_splits)

lemma get_uvlc_from_range:
  "num_zeros \<le> MAX_UVLC_LEADING_ZEROS \<Longrightarrow> get_uvlc_from r num_zeros = Inr (v, r') \<Longrightarrow>
   v = UVLC_ERROR \<or> (0 \<le> v \<and> v \<le> 2 ^ 21 - 2)"
proof (induction r num_zeros rule: get_uvlc_from.induct)
  case (1 r nz)
  from "1.prems"(2) obtain b r1 where g1: "get_bits r 1 = Inr (b, r1)"
    by (subst (asm) get_uvlc_from.simps) (auto split: sum.splits)
  show ?case
  proof (cases "b = 0")
    case True
    show ?thesis
    proof (cases "nz + 1 > MAX_UVLC_LEADING_ZEROS")
      case True
      with \<open>b = 0\<close> g1 "1.prems"(2) show ?thesis
        by (subst (asm) get_uvlc_from.simps) simp
    next
      case False
      with \<open>b = 0\<close> g1 "1.prems"(2) have "get_uvlc_from r1 (nz + 1) = Inr (v, r')"
        by (subst (asm) get_uvlc_from.simps) simp
      with "1.IH"[OF g1 refl \<open>b = 0\<close> False] False show ?thesis by simp
    qed
  next
    case False
    show ?thesis
    proof (cases "nz > 0")
      case True
      with False g1 "1.prems"(2) obtain off where
        g2: "get_bits r1 nz = Inr (off, r')" and v: "v = off + 2 ^ nz - 1"
        by (subst (asm) get_uvlc_from.simps) (auto simp: py_bind_def split: sum.splits)
      from get_bits_range[OF g2] have "0 \<le> off" "off < 2 ^ nz" by auto
      moreover have "(2::int) ^ nz \<le> 2 ^ 20"
        using "1.prems"(1) by (intro power_increasing) (auto simp: MAX_UVLC_LEADING_ZEROS_def)
      ultimately show ?thesis using v by simp
    next
      case F2: False
      with False g1 "1.prems"(2) have "v = 0"
        by (subst (asm) get_uvlc_from.simps) simp
      then show ?thesis by simp
    qed
  qed
qed

lemma bits_val_append: "bits_val (xs @ ys) = bits_val xs * 2 ^ length ys + bits_val ys"
  by (induction xs) (auto simp: algebra_simps power_add)

lemma bits_val_bounds: "0 \<le> bits_val xs \<and> bits_val xs < 2 ^ length xs"
  by (induction xs) auto

lemma bits_val_replicate_False [simp]: "bits_val (replicate k False) = 0"
  by (induction k) auto

lemma BitReader_init_ok:
  "\<exists>r. BitReader_init buffer = Inr r \<and> reader_ok r \<and> pending_bits r = byte_bits buffer"
proof -
  let ?r0 = "\<lparr>data = buffer, bytes_remaining = length buffer, byte_pos = 0, bit_pos = 0,
             nextbits = 0, nextbits_cnt = 0\<rparr>"
  have "reader_ok ?r0" by (simp add: reader_ok_def)
  from refill_ok[OF this] show ?thesis
    by (auto simp: BitReader_init_def pending_bits_def byte_bits_def)
qed

lemma get_bit_step:
  assumes "reader_ok r" and "pending_bits r = b # bs"
  shows "\<exists>r1. get_bits r 1 = Inr (of_bool b, r1) \<and> reader_ok r1 \<and> pending_bits r1 = bs"
  using get_bits_ok[OF assms(1), of 1] assms(2) by simp

lemma skip_zeros:
  "reader_ok r \<Longrightarrow> pending_bits r = replicate k False @ bs \<Longrightarrow>
   nz + k \<le> MAX_UVLC_LEADING_ZEROS \<Longrightarrow>
   \<exists>r1. reader_ok r1 \<and> pending_bits r1 = bs \<and> get_uvlc_from r nz = get_uvlc_from r1 (nz + k)"
proof (induction k arbitrary: r nz)
  case 0
  then show ?case by auto
next
  case (Suc k)
  from Suc.prems(2) have "pending_bits r = False # (replicate k False @ bs)" by simp
  from get_bit_step[OF Suc.prems(1) this] obtain r1 where
    r1: "get_bits r 1 = Inr (0, r1)" "reader_ok r1" "pending_bits r1 = replicate k False @ bs"
    by auto
  from Suc.prems(3) have le: "Suc nz + k \<le> MAX_UVLC_LEADING_ZEROS" by simp
  from Suc.IH[OF r1(2) r1(3) le] obtain r2 where
    r2: "reader_ok r2" "pending_bits r2 = bs" "get_uvlc_from r1 (Suc nz) = get_uvlc_from r2 (Suc nz + k)"
    by blast
  have "get_uvlc_from r nz = get_uvlc_from r1 (Suc nz)"
    using r1(1) Suc.prems(3) by (subst get_uvlc_from.simps) simp
  with r2 show ?case by auto
qed

lemma too_many_zeros:
  assumes "reader_ok r" and "pending_bits r = replicate (Suc MAX_UVLC_LEADING_ZEROS) False @ bs"
  shows "\<exists>r1. get_uvlc_from r 0 = Inr (UVLC_ERROR, r1) \<and> reader_ok r1 \<and> pending_bits r1 = bs"
proof -
  have "pending_bits r = replicate MAX_UVLC_LEADING_ZEROS False @ (False # bs)"
    using assms(2) by (simp add: replicate_app_Cons_same)
  from skip_zeros[OF assms(1) this, of 0] obtain r1 where
    r1: "reader_ok r1" "pending_bits r1 = False # bs"
    "get_uvlc_from r 0 = get_uvlc_from r1 MAX_UVLC_LEADING_ZEROS" by auto
  from get_bit_step[OF r1(1) r1(2)] obtain r2 where
    r2: "get_bits r1 1 = Inr (0, r2)" "reader_ok r2" "pending_bits r2 = bs" by auto
  have "get_uvlc_from r1 MAX_UVLC_LEADING_ZEROS = Inr (UVLC_ERROR, r2)"
    using r2(1) by (subst get_uvlc_from.simps) simp
  with r1(3) r2 show ?thesis by auto
qed

lemma get_uvlc_decode:
  assumes ok: "reader_ok r" and z: "z \<le> MAX_UVLC_LEADING_ZEROS" and len: "length offs = z"
    and pb: "pending_bits r = replicate z False @ True # offs @ rest"
  shows "\<exists>r'. get_uvlc r = Inr (if z = 0 then 0 else bits_val offs + 2 ^ z - 1, r') \<and>
              reader_ok r' \<and> pending_bits r' = rest"
proof -
  from skip_zeros[OF ok pb, of 0] z obtain r1 where
    r1: "reader_ok r1" "pending_bits r1 = True # offs @ rest"
    "get_uvlc_from r 0 = get_uvlc_from r1 z" by auto
  from get_bit_step[OF r1(1) r1(2)] obtain r2 where
    r2: "get_bits r1 1 = Inr (1, r2)" "reader_ok r2" "pending_bits r2 = offs @ rest" by auto
  show ?thesis
  proof (cases "z = 0")
    case True
    then have "get_uvlc_from r1 z = Inr (0, r2)"
      using r2(1) by (subst get_uvlc_from.simps) simp
    with True r1(3) r2 len show ?thesis by (auto simp: get_uvlc_def)
  next
    case False
    have "z \<le> 57" using z by (simp add: MAX_UVLC_LEADING_ZEROS_def)
    from get_bits_ok[OF r2(2) this] len r2(3) obtain r3 where
      r3: "get_bits r2 z = Inr (bits_val offs, r3)" "reader_ok r3" "pending_bits r3 = rest"
      by auto
    have "get_uvlc_from r1 z = Inr (bits_val offs + 2 ^ z - 1, r3)"
      using r2(1) r3(1) False by (subst get_uvlc_from.simps) (simp add: py_bind_def)
    with False r1(3) r3 show ?thesis by (auto simp: get_uvlc_def)
  qed
qed

lemma floorlog_window:
  fixes v :: nat
  defines "z \<equiv> floorlog 2 (v + 1) - 1"
  shows "2 ^ z \<le> v + 1" "v + 1 < 2 ^ Suc z"
  using floorlog_bounds[of "v + 1" 2] floorlog_ge_SucI[of 2 0 "v + 1"]
  by (auto simp: z_def)

lemma window_int:
  fixes v z :: nat
  assumes b: "2 ^ z \<le> v + 1" "v + 1 < 2 ^ Suc z"
  shows "(2::int) ^ z \<le> int v + 1" "int v + 1 < 2 ^ Suc z"
proof -
  from b(1) have "int (2 ^ z) \<le> int (v + 1)" by (simp only: of_nat_le_iff)
  then show "(2::int) ^ z \<le> int v + 1" by simp
  from b(2) have "int (v + 1) < int (2 ^ Suc z)" by (simp only: of_nat_less_iff)
  then show "int v + 1 < 2 ^ Suc z" by simp
qed

lemma window_top_bit:
  fixes v z :: nat
  assumes bi: "(2::int) ^ z \<le> int v + 1" "int v + 1 < 2 ^ Suc z"
  shows "bit (int v + 1) z" "take_bit z (int v + 1) = int v + 1 - 2 ^ z"
proof -
  have t: "take_bit (Suc z) (int v + 1) = int v + 1"
    using bi by (simp add: take_bit_int_eq_self)
  have e: "take_bit (Suc z) (int v + 1) =
      2 ^ z * of_bool (bit (int v + 1) z) + take_bit z (int v + 1)"
    by (rule take_bit_Suc_from_most)
  have lt: "take_bit z (int v + 1) < 2 ^ z" by simp
  show bt: "bit (int v + 1) z"
  proof (rule ccontr)
    assume "\<not> bit (int v + 1) z"
    with e t have "take_bit z (int v + 1) = int v + 1" by simp
    with lt bi(1) show False by linarith
  qed
  with e t show "take_bit z (int v + 1) = int v + 1 - 2 ^ z" by simp
qed

lemma window_le:
  fixes v z k :: nat
  assumes "2 ^ z \<le> v + 1" "v < 2 ^ k"
  shows "z \<le> k"
proof -
  have "v + 1 \<le> 2 ^ k" using assms(2) by simp
  with assms(1) have "(2::nat) ^ z \<le> 2 ^ k" by linarith
  then show ?thesis by simp
qed

lemma ue_encode_shape:
  fixes v :: nat
  defines "z \<equiv> floorlog 2 (v + 1) - 1"
  shows "ue_encode v = replicate z False @ True # int_bits z (int v + 1)"
    and "bits_val (int_bits z (int v + 1)) + 2 ^ z - 1 = int v"
    and "v < 2 ^ k \<Longrightarrow> z \<le> k"
proof -
  note b = floorlog_window[of v, folded z_def]
  note bi = window_int[OF b]
  note tb = window_top_bit[OF bi]
  show "ue_encode v = replicate z False @ True # int_bits z (int v + 1)"
    unfolding ue_encode_def Let_def z_def[symmetric] using tb(1) by simp
  show "bits_val (int_bits z (int v + 1)) + 2 ^ z - 1 = int v"
    by (simp add: bits_val_int_bits tb(2))
  show "z \<le> k" if "v < 2 ^ k"
    using window_le[OF b(1) that] .
qed

lemma push_bit_or_add:
  fixes a b :: int
  assumes "0 \<le> b" "b < 2 ^ k"
  shows "push_bit k a OR b = push_bit k a + b"
proof -
  have tb: "take_bit k b = b" using assms by (simp add: take_bit_int_eq_self)
  have "push_bit k a + b = push_bit k a OR b"
  proof (rule disjunctive_add)
    fix n
    have "bit b n \<longleftrightarrow> n < k \<and> bit b n"
      by (subst tb[symmetric]) (simp add: bit_take_bit_iff)
    then show "\<not> bit (push_bit k a) n \<or> \<not> bit b n"
      by (auto simp: bit_push_bit_iff)
  qed
  then show ?thesis by simp
qed

lemma take_bit_uint32: "take_bit 32 (uint (w::32 word)) = uint w"
  using uint_lt2p[of w] by (simp add: take_bit_int_eq_self)

lemma uint_drop_bit32: "uint (drop_bit k (w::32 word)) = drop_bit k (uint w)"
  by (simp add: unsigned_drop_bit_eq take_bit_uint32)

lemma int_bits_ucast:
  "int_bits 8 (uint (ucast (w::32 word) :: byte)) = int_bits 8 (uint w)"
  by (rule int_bits_cong) (simp add: unsigned_ucast_eq)

lemma byte_bits_be_bytes32: "byte_bits (be_bytes32 w) = int_bits 32 (uint w)"
proof -
  let ?x = "uint w"
  have "int_bits (8 + 24) ?x = int_bits 8 (drop_bit 24 ?x) @ int_bits 24 ?x"
    by (rule int_bits_split)
  moreover have "int_bits (8 + 16) ?x = int_bits 8 (drop_bit 16 ?x) @ int_bits 16 ?x"
    by (rule int_bits_split)
  moreover have "int_bits (8 + 8) ?x = int_bits 8 (drop_bit 8 ?x) @ int_bits 8 ?x"
    by (rule int_bits_split)
  ultimately have "int_bits 32 ?x = int_bits 8 (drop_bit 24 ?x) @ int_bits 8 (drop_bit 16 ?x) @
      int_bits 8 (drop_bit 8 ?x) @ int_bits 8 ?x"
    by simp
  then show ?thesis
    by (simp only: byte_bits_def be_bytes32_def list.map concat.simps append_Nil2
        int_bits_ucast uint_drop_bit32)
qed

lemma int_bits32_take:
  assumes "n \<le> 32"
  shows "take n (int_bits 32 x) = int_bits n (drop_bit (32 - n) x)"
    and "drop n (int_bits 32 x) = int_bits (32 - n) x"
proof -
  have "int_bits 32 x = int_bits (n + (32 - n)) x" using assms by simp
  also have "\<dots> = int_bits n (drop_bit (32 - n) x) @ int_bits (32 - n) x"
    by (rule int_bits_split)
  finally have e: "int_bits 32 x = int_bits n (drop_bit (32 - n) x) @ int_bits (32 - n) x" .
  show "take n (int_bits 32 x) = int_bits n (drop_bit (32 - n) x)"
    by (subst e) simp
  show "drop n (int_bits 32 x) = int_bits (32 - n) x"
    by (subst e) simp
qed

lemma drop_bit_uint32:
  assumes "n \<le> 32"
  shows "take_bit n (drop_bit (32 - n) (uint (w::32 word))) = drop_bit (32 - n) (uint w)"
proof -
  have "drop_bit (32 - n) (take_bit 32 (uint w)) = take_bit (32 - (32 - n)) (drop_bit (32 - n) (uint w))"
    by (rule drop_bit_take_bit)
  with assms show ?thesis by (simp add: take_bit_uint32)
qed

section \<open>The demuxer, packet by packet\<close>

lemma demux_packet_run:
  assumes "header_in_range p"
  shows "demux_packet (nal, s) p =
     Inr (if accepted p
          then (nal @ (if unit_start p \<and> s then [0, 0, 1] else []) @ payload_of p,
                s \<or> unit_start p)
          else (nal, s))"
  using assms
  by (auto simp: demux_packet_def header_in_range_def accepted_def py_bind_def py_index_def
      Let_def packet_pid_def payload_start_of_def unit_start_def pes_header_at_def payload_of_def)

lemma demux_packet_short:
  assumes "p \<noteq> []" and "\<not> header_in_range p"
  shows "demux_packet st p = Inl IndexError"
  using assms
  by (cases st) (auto simp: demux_packet_def header_in_range_def py_bind_def py_index_def
      Let_def packet_pid_def payload_start_of_def unit_start_def pes_header_at_def
      split: if_splits)

lemma ts_packets_Nil [simp]: "ts_packets [] = []"
  by (subst ts_packets.simps) simp

lemma ts_packets_bounds:
  "p \<in> set (ts_packets ts) \<Longrightarrow> p \<noteq> [] \<and> length p \<le> TS_PACKET_SIZE"
proof (induction ts rule: ts_packets.induct)
  case (1 ts)
  show ?case
  proof (cases "ts = []")
    case True
    with "1.prems" show ?thesis by simp
  next
    case False
    with "1.prems" have "p = take TS_PACKET_SIZE ts \<or> p \<in> set (ts_packets (drop TS_PACKET_SIZE ts))"
      by (subst (asm) ts_packets.simps) auto
    then show ?thesis
    proof
      assume "p = take TS_PACKET_SIZE ts"
      with False show ?thesis by (simp add: TS_PACKET_SIZE_def)
    next
      assume "p \<in> set (ts_packets (drop TS_PACKET_SIZE ts))"
      with "1.IH"[OF False] show ?thesis by simp
    qed
  qed
qed

lemma ts_packets_single:
  assumes "p \<noteq> []" and "length p \<le> TS_PACKET_SIZE"
  shows "ts_packets p = [p]"
  using assms by (subst ts_packets.simps) simp

lemma ts_packets_append:
  "length ts mod TS_PACKET_SIZE = 0 \<Longrightarrow> ts_packets (ts @ rest) = ts_packets ts @ ts_packets rest"
proof (induction ts rule: ts_packets.induct)
  case (1 ts)
  show ?case
  proof (cases "ts = []")
    case True
    then show ?thesis by simp
  next
    case False
    have len: "TS_PACKET_SIZE \<le> length ts"
    proof (rule ccontr)
      assume "\<not> TS_PACKET_SIZE \<le> length ts"
      then have "length ts mod TS_PACKET_SIZE = length ts" by simp
      with "1.prems" False show False by simp
    qed
    then have m: "length (drop TS_PACKET_SIZE ts) mod TS_PACKET_SIZE = 0"
      using "1.prems" by (simp add: le_mod_geq)
    have "ts_packets (ts @ rest) =
        take TS_PACKET_SIZE ts # ts_packets (drop TS_PACKET_SIZE ts @ rest)"
      using False len by (subst ts_packets.simps) simp
    also have "\<dots> = take TS_PACKET_SIZE ts # ts_packets (drop TS_PACKET_SIZE ts) @ ts_packets rest"
      using "1.IH"[OF False m] by simp
    also have "\<dots> = ts_packets ts @ ts_packets rest"
      using False by (subst (2) ts_packets.simps) simp
    finally show ?thesis .
  qed
qed

lemma ts_packets_concat:
  "list_all (\<lambda>p. length p = TS_PACKET_SIZE) ps \<Longrightarrow> ts_packets (concat ps) = ps"
proof (induction ps)
  case Nil
  then show ?case by simp
next
  case (Cons p ps)
  then have p: "length p = TS_PACKET_SIZE" and IH: "ts_packets (concat ps) = ps" by auto
  have "p \<noteq> []" using p by (auto simp: TS_PACKET_SIZE_def)
  from ts_packets_append[of p "concat ps"] p ts_packets_single[OF this] IH
  show ?case by simp
qed

lemma demux_loop_packets:
  "demux_loop ts i st = demux_packets (ts_packets (drop i ts)) st"
proof (induction ts i st rule: demux_loop.induct)
  case (1 ts i st)
  show ?case
  proof (cases "i < length ts")
    case False
    then show ?thesis by (subst demux_loop.simps) simp
  next
    case True
    then have ne: "drop i ts \<noteq> []" by simp
    have tp: "ts_packets (drop i ts) =
        take TS_PACKET_SIZE (drop i ts) # ts_packets (drop (i + TS_PACKET_SIZE) ts)"
      using ne by (subst ts_packets.simps) (simp add: add.commute)
    show ?thesis
    proof (cases "demux_packet st (take TS_PACKET_SIZE (drop i ts))")
      case (Inl e)
      with True show ?thesis by (subst demux_loop.simps) (simp add: tp)
    next
      case (Inr st1)
      with True "1.IH"[OF True Inr] show ?thesis
        by (subst demux_loop.simps) (simp add: tp)
    qed
  qed
qed

lemma demux_packets_run:
  "list_all header_in_range ps \<Longrightarrow>
   demux_packets ps (nal, s) =
     Inr (nal @ concat (nal_pieces s ps), s \<or> list_ex detected_unit_start ps)"
proof (induction ps arbitrary: nal s)
  case Nil
  then show ?case by simp
next
  case (Cons p ps)
  then have h: "header_in_range p" and r: "list_all header_in_range ps" by auto
  show ?case
    by (simp add: demux_packet_run[OF h] Cons.IH[OF r] detected_unit_start_def)
qed

lemma demux_packets_fail:
  "list_all (\<lambda>p. p \<noteq> []) ps \<Longrightarrow> \<not> list_all header_in_range ps \<Longrightarrow>
   demux_packets ps st = Inl IndexError"
proof (induction ps arbitrary: st)
  case Nil
  then show ?case by simp
next
  case (Cons p ps)
  show ?case
  proof (cases "header_in_range p")
    case False
    with Cons.prems show ?thesis by (simp add: demux_packet_short)
  next
    case True
    with Cons.prems have "demux_packets ps st' = Inl IndexError" for st'
      using Cons.IH by simp
    then show ?thesis
      using demux_packet_run[OF True, of "fst st" "snd st"] by simp
  qed
qed

lemma extract_run:
  "extract_h265_nal_from_ts ts =
     (if list_all header_in_range (ts_packets ts)
      then Inr (concat (nal_pieces False (ts_packets ts)))
      else Inl IndexError)"
proof -
  have ne: "list_all (\<lambda>p. p \<noteq> []) (ts_packets ts)"
    using ts_packets_bounds by (auto simp: list_all_iff)
  show ?thesis
    using demux_packets_run[of "ts_packets ts" "[]" False] demux_packets_fail[OF ne]
    by (auto simp: extract_h265_nal_from_ts_def demux_loop_packets py_bind_def)
qed

lemma nal_pieces_append:
  "nal_pieces s (xs @ ys) = nal_pieces s xs @ nal_pieces (s \<or> list_ex detected_unit_start xs) ys"
  by (induction xs arbitrary: s) (auto simp: detected_unit_start_def)

lemma length_nal_pieces [simp]: "length (nal_pieces s ps) = length ps"
  by (induction ps arbitrary: s) auto

lemma payload_of_suffix: "\<exists>k. payload_of p = drop k p"
  by (auto simp: payload_of_def)

lemma nal_pieces_nth:
  "i < length ps \<Longrightarrow>
   (\<not> accepted (ps ! i) \<longrightarrow> nal_pieces s ps ! i = []) \<and>
   (\<exists>k. nal_pieces s ps ! i = drop k (ps ! i) \<or> nal_pieces s ps ! i = [0, 0, 1] @ drop k (ps ! i))"
proof (induction ps arbitrary: s i)
  case Nil
  then show ?case by simp
next
  case (Cons p ps)
  show ?case
  proof (cases i)
    case 0
    obtain k where k: "payload_of p = drop k p" using payload_of_suffix by blast
    have e: "[] = drop (length p) p" by simp
    show ?thesis using 0 k e by (auto simp del: drop_all drop_eq_Nil drop_eq_Nil2)
  next
    case (Suc j)
    with Cons.prems have "j < length ps" by simp
    from Cons.IH[OF this] show ?thesis using Suc by simp
  qed
qed

lemma nal_pieces_filter:
  "concat (nal_pieces s (filter (\<lambda>p. packet_pid p = VIDEO_PID) ps)) = concat (nal_pieces s ps)"
  by (induction ps arbitrary: s) (auto simp: accepted_def)

lemma full_packet_in_range:
  "length p = TS_PACKET_SIZE \<Longrightarrow> packet_pid p \<noteq> VIDEO_PID \<Longrightarrow> header_in_range p"
  by (auto simp: header_in_range_def TS_PACKET_SIZE_def)

lemma list_all_filter_in_range:
  "list_all (\<lambda>p. length p = TS_PACKET_SIZE) ps \<Longrightarrow>
   list_all header_in_range (filter (\<lambda>p. packet_pid p = VIDEO_PID) ps) =
   list_all header_in_range ps"
  by (induction ps) (auto simp: full_packet_in_range)

lemmas packet_defs = header_in_range_def accepted_def packet_pid_def payload_start_of_def
  unit_start_def pes_header_at_def payload_of_def detected_unit_start_def VIDEO_PID_def
  TS_PACKET_SIZE_def

lemma replicate_3: "replicate 3 x = [x, x, x]"
  by (simp add: numeral_3_eq_3)

section \<open>The SEI decoder on the pending bits\<close>

lemma py_bind_Inr: "py_bind (Inr x) f = f x"
  by (simp add: py_bind_def)

lemma py_bind_Inl: "py_bind (Inl e) f = Inl e"
  by (simp add: py_bind_def)

lemma read_fields_ok:
  "reader_ok r \<Longrightarrow> list_all (\<lambda>n. n \<le> 57) ns \<Longrightarrow> sum_list ns \<le> length (pending_bits r) \<Longrightarrow>
   \<exists>r'. read_fields ns r = Inr (field_vals ns (pending_bits r), r') \<and> reader_ok r' \<and>
        pending_bits r' = drop (sum_list ns) (pending_bits r)"
proof (induction ns arbitrary: r)
  case Nil
  then show ?case by simp
next
  case (Cons n ns)
  from Cons.prems have n: "n \<le> 57" "n \<le> length (pending_bits r)" by auto
  from get_bits_ok[OF Cons.prems(1) n] obtain r1 where
    r1: "get_bits r n = Inr (bits_val (take n (pending_bits r)), r1)" "reader_ok r1"
    "pending_bits r1 = drop n (pending_bits r)" by blast
  from Cons.prems have "list_all (\<lambda>n. n \<le> 57) ns" "sum_list ns \<le> length (pending_bits r1)"
    by (auto simp: r1(3))
  from Cons.IH[OF r1(2) this] obtain r2 where
    r2: "read_fields ns r1 = Inr (field_vals ns (pending_bits r1), r2)" "reader_ok r2"
    "pending_bits r2 = drop (sum_list ns) (pending_bits r1)" by blast
  show ?case
    by (rule exI[of _ r2]) (simp add: r1 r2 add.commute py_bind_Inr)
qed

lemma read_fields_short:
  "reader_ok r \<Longrightarrow> list_all (\<lambda>n. n \<le> 57) ns \<Longrightarrow> length (pending_bits r) < sum_list ns \<Longrightarrow>
   read_fields ns r = Inl ValueError"
proof (induction ns arbitrary: r)
  case Nil
  then show ?case by simp
next
  case (Cons n ns)
  show ?case
  proof (cases "n \<le> length (pending_bits r)")
    case False
    then show ?thesis using get_bits_short[OF Cons.prems(1), of n] by (simp add: py_bind_Inl)
  next
    case True
    from Cons.prems have n: "n \<le> 57" by simp
    from get_bits_ok[OF Cons.prems(1) n True] obtain r1 where
      r1: "get_bits r n = Inr (bits_val (take n (pending_bits r)), r1)" "reader_ok r1"
      "pending_bits r1 = drop n (pending_bits r)" by blast
    from Cons.prems True have "list_all (\<lambda>n. n \<le> 57) ns" "length (pending_bits r1) < sum_list ns"
      by (auto simp: r1(3))
    from Cons.IH[OF r1(2) this] show ?thesis by (simp add: r1 py_bind_Inr py_bind_Inl)
  qed
qed

lemma read_sei_header_fields:
  "read_sei_header r sei =
     py_bind (read_fields header_widths r) (\<lambda>(vs, r'). Inr (header_record sei vs, r'))"
  unfolding read_sei_header_def header_widths_def header_record_def read_fields.simps
  by (simp add: py_bind_def split: sum.splits prod.splits)

lemma read_fovs_fields:
  "read_fovs (Suc k) r acc =
     py_bind (read_fields fov_widths r) (\<lambda>(vs, r').
       read_fovs k r' (acc @ [fov_record (length acc) vs]))"
  unfolding read_fovs.simps fov_widths_def fov_record_def read_fields.simps
  by (simp add: py_bind_def split: sum.splits prod.splits)

lemma header_widths_props:
  "list_all (\<lambda>n. n \<le> 57) header_widths" "sum_list header_widths = 112"
  by (simp_all add: header_widths_def)

lemma fov_widths_props:
  "list_all (\<lambda>n. n \<le> 57) fov_widths" "sum_list fov_widths = 72"
  by (simp_all add: fov_widths_def)

lemma read_uuid_ok:
  "reader_ok r \<Longrightarrow> 8 * k \<le> length (pending_bits r) \<Longrightarrow>
   \<exists>r'. read_uuid k r sei =
          Inr (sei\<lparr>uuid_string := uuid_string sei @ bits_chars k (pending_bits r)\<rparr>, r') \<and>
        reader_ok r' \<and> pending_bits r' = drop (8 * k) (pending_bits r)"
proof (induction k arbitrary: r sei)
  case 0
  then show ?case by simp
next
  case (Suc k)
  from Suc.prems have n: "(8::nat) \<le> 57" "8 \<le> length (pending_bits r)" by auto
  from get_bits_ok[OF Suc.prems(1) n] obtain r1 where
    r1: "get_bits r 8 = Inr (bits_val (take 8 (pending_bits r)), r1)" "reader_ok r1"
    "pending_bits r1 = drop 8 (pending_bits r)" by blast
  from Suc.prems have "8 * k \<le> length (pending_bits r1)" by (simp add: r1(3))
  from Suc.IH[OF r1(2) this,
      of "sei\<lparr>uuid_string := uuid_string sei @ [char_of (bits_val (take 8 (pending_bits r)))]\<rparr>"]
  obtain r2 where
    r2: "read_uuid k r1
           (sei\<lparr>uuid_string := uuid_string sei @ [char_of (bits_val (take 8 (pending_bits r)))]\<rparr>) =
         Inr (sei\<lparr>uuid_string := (uuid_string sei @ [char_of (bits_val (take 8 (pending_bits r)))]) @
                  bits_chars k (pending_bits r1)\<rparr>, r2)"
      "reader_ok r2" "pending_bits r2 = drop (8 * k) (pending_bits r1)" by auto
  show ?case
    by (rule exI[of _ r2]) (simp add: r1 r2 add.commute py_bind_Inr)
qed

lemma read_uuid_short:
  "reader_ok r \<Longrightarrow> length (pending_bits r) < 8 * k \<Longrightarrow> read_uuid k r sei = Inl ValueError"
proof (induction k arbitrary: r sei)
  case 0
  then show ?case by simp
next
  case (Suc k)
  show ?case
  proof (cases "8 \<le> length (pending_bits r)")
    case False
    then show ?thesis using get_bits_short[OF Suc.prems(1), of 8] by (simp add: py_bind_Inl)
  next
    case True
    have n: "(8::nat) \<le> 57" by simp
    from get_bits_ok[OF Suc.prems(1) n True] obtain r1 where
      r1: "get_bits r 8 = Inr (bits_val (take 8 (pending_bits r)), r1)" "reader_ok r1"
      "pending_bits r1 = drop 8 (pending_bits r)" by blast
    from Suc.prems True have "length (pending_bits r1) < 8 * k" by (simp add: r1(3))
    from Suc.IH[OF r1(2) this] show ?thesis by (simp add: r1 py_bind_Inr)
  qed
qed

lemma read_fovs_ok:
  "reader_ok r \<Longrightarrow> 72 * k \<le> length (pending_bits r) \<Longrightarrow>
   \<exists>r'. read_fovs k r acc = Inr (acc @ decoded_fovs (length acc) k (pending_bits r), r') \<and>
        reader_ok r' \<and> pending_bits r' = drop (72 * k) (pending_bits r)"
proof (induction k arbitrary: r acc)
  case 0
  then show ?case by simp
next
  case (Suc k)
  from Suc.prems have "sum_list fov_widths \<le> length (pending_bits r)"
    by (simp add: fov_widths_props)
  from read_fields_ok[OF Suc.prems(1) fov_widths_props(1) this] obtain r1 where
    r1: "read_fields fov_widths r = Inr (field_vals fov_widths (pending_bits r), r1)"
    "reader_ok r1" "pending_bits r1 = drop 72 (pending_bits r)"
    by (auto simp: fov_widths_props)
  from Suc.prems have "72 * k \<le> length (pending_bits r1)" by (simp add: r1(3))
  from Suc.IH[OF r1(2) this,
      of "acc @ [fov_record (length acc) (field_vals fov_widths (pending_bits r))]"]
  obtain r2 where
    r2: "read_fovs k r1 (acc @ [fov_record (length acc) (field_vals fov_widths (pending_bits r))]) =
         Inr ((acc @ [fov_record (length acc) (field_vals fov_widths (pending_bits r))]) @
              decoded_fovs (Suc (length acc)) k (pending_bits r1), r2)"
      "reader_ok r2" "pending_bits r2 = drop (72 * k) (pending_bits r1)" by auto
  show ?case
    by (rule exI[of _ r2])
      (simp add: read_fovs_fields r1 r2 add.commute py_bind_Inr del: read_fovs.simps)
qed

lemma read_fovs_short:
  "reader_ok r \<Longrightarrow> length (pending_bits r) < 72 * k \<Longrightarrow> read_fovs k r acc = Inl ValueError"
proof (induction k arbitrary: r acc)
  case 0
  then show ?case by simp
next
  case (Suc k)
  show ?case
  proof (cases "72 \<le> length (pending_bits r)")
    case False
    then have "length (pending_bits r) < sum_list fov_widths" by (simp add: fov_widths_props)
    from read_fields_short[OF Suc.prems(1) fov_widths_props(1) this] show ?thesis
      by (simp add: read_fovs_fields py_bind_Inl del: read_fovs.simps)
  next
    case True
    then have "sum_list fov_widths \<le> length (pending_bits r)" by (simp add: fov_widths_props)
    from read_fields_ok[OF Suc.prems(1) fov_widths_props(1) this] obtain r1 where
      r1: "read_fields fov_widths r = Inr (field_vals fov_widths (pending_bits r), r1)"
      "reader_ok r1" "pending_bits r1 = drop 72 (pending_bits r)"
      by (auto simp: fov_widths_props)
    from Suc.prems True have "length (pending_bits r1) < 72 * k" by (simp add: r1(3))
    from Suc.IH[OF r1(2) this] show ?thesis
      by (simp add: read_fovs_fields r1 py_bind_Inr del: read_fovs.simps)
  qed
qed

lemma length_decoded_fovs: "length (decoded_fovs i k bs) = k"
  by (induction k arbitrary: i bs) auto

lemma fov_ids_decoded_fovs: "map fov_id (decoded_fovs i k bs) = map (\<lambda>j. int j + 1) [i..<i + k]"
proof (induction k arbitrary: i bs)
  case 0
  then show ?case by simp
next
  case (Suc k)
  have "[i..<i + Suc k] = i # [Suc i..<Suc i + k]" by (simp add: upt_conv_Cons)
  with Suc[of "Suc i" "drop 72 bs"] show ?case by (simp add: fov_record_def)
qed

lemma decoded_sei_props:
  "uuid_string (decoded_sei bs) = bits_chars 16 bs"
  "stitching_layout (decoded_sei bs) \<noteq> None"
  "camera_model (decoded_sei bs) \<noteq> None"
  "background_depth_flag (decoded_sei bs) \<noteq> None"
  "arrangement_flag (decoded_sei bs) \<noteq> None"
  "camera_number (decoded_sei bs) = bits_val (take 16 (drop 130 bs))"
  by (simp_all add: decoded_sei_def header_record_def header_widths_def)


section \<open>Claims about the bit reader\<close>

text \<open>
  Claim C1, as the code has it. For a reader whose byte position and remaining-byte count
  agree with its buffer, and a width \<open>n\<close> of at most 57: when at least \<open>n\<close> bits remain
  (buffered plus unread source bytes), \<^verbatim>\<open>get_bits(n)\<close> returns the next \<open>n\<close> bits, most
  significant first, and leaves the others pending; when fewer than \<open>n\<close> bits remain, the
  shift count is negative and the read fails with \<^verbatim>\<open>ValueError\<close>. There is no zero filling.
\<close>

theorem get_bits_available:
  assumes "reader_ok r" and "n \<le> 57"
  shows "if n \<le> length (pending_bits r)
         then \<exists>r'. get_bits r n = Inr (bits_val (take n (pending_bits r)), r') \<and>
                    reader_ok r' \<and> pending_bits r' = drop n (pending_bits r)
         else get_bits r n = Inl ValueError"
  using get_bits_ok[OF assms] get_bits_short[OF assms(1), of n] by auto

theorem get_bits_available_witness:
  "reader_ok \<lparr>data = [0xA5], bytes_remaining = 0, byte_pos = 1, bit_pos = 0,
              nextbits = 0xA5, nextbits_cnt = 8\<rparr> \<and> (3::nat) \<le> 57 \<and>
   (\<exists>r'. get_bits \<lparr>data = [0xA5], bytes_remaining = 0, byte_pos = 1, bit_pos = 0,
              nextbits = 0xA5, nextbits_cnt = 8\<rparr> 3 = Inr (5, r') \<and> reader_ok r' \<and>
         pending_bits r' = [False, False, True, False, True]) \<and>
   get_bits \<lparr>data = [0xA5], bytes_remaining = 0, byte_pos = 1, bit_pos = 0,
              nextbits = 0xA5, nextbits_cnt = 8\<rparr> 9 = Inl ValueError"
proof -
  let ?r = "\<lparr>data = [0xA5], bytes_remaining = 0, byte_pos = 1, bit_pos = 0,
              nextbits = 0xA5, nextbits_cnt = 8\<rparr>"
  have ok: "reader_ok ?r" by (simp add: reader_ok_def)
  have pb: "pending_bits ?r = [True, False, True, False, False, True, False, True]"
    by code_simp
  note a = get_bits_available[OF ok, of 3, unfolded pb]
  note b = get_bits_available[OF ok, of 9, unfolded pb]
  from a b ok show ?thesis by simp
qed

text \<open>
  Claim C1 as stated fails: a reader over the one byte \<open>0xFF\<close> holds 8 bits, and a read of 16
  bits raises \<^verbatim>\<open>ValueError\<close> instead of returning the 8 bits zero-filled.
\<close>

theorem get_bits_exhausted_counterexample:
  "BitReader_init [0xFF] = Inr \<lparr>data = [0xFF], bytes_remaining = 0, byte_pos = 1, bit_pos = 0,
              nextbits = 0xFF, nextbits_cnt = 8\<rparr> \<and>
   get_bits \<lparr>data = [0xFF], bytes_remaining = 0, byte_pos = 1, bit_pos = 0,
              nextbits = 0xFF, nextbits_cnt = 8\<rparr> 16 = Inl ValueError"
  by code_simp

text \<open>
  Claim C3. For every \<open>v\<close> below \<open>2^16\<close>: when the pending bits of a reader start with the
  canonical unsigned exponential-Golomb code of \<open>v\<close>, \<^verbatim>\<open>get_uvlc\<close> returns \<open>v\<close> and consumes
  exactly that code, so that encoding the result again gives the bits that were read.
\<close>

theorem get_uvlc_roundtrip:
  assumes "reader_ok r" and "v < 2 ^ 16" and "pending_bits r = ue_encode v @ rest"
  shows "\<exists>r'. get_uvlc r = Inr (int v, r') \<and> reader_ok r' \<and> pending_bits r' = rest"
proof -
  define z where "z = floorlog 2 (v + 1) - 1"
  have z: "z \<le> MAX_UVLC_LEADING_ZEROS"
    using ue_encode_shape(3)[OF assms(2)] by (simp add: z_def MAX_UVLC_LEADING_ZEROS_def)
  have pb: "pending_bits r = replicate z False @ True # int_bits z (int v + 1) @ rest"
    using assms(3) ue_encode_shape(1)[of v] by (simp add: z_def)
  from get_uvlc_decode[OF assms(1) z _ pb] obtain r' where
    r': "get_uvlc r = Inr (if z = 0 then 0 else bits_val (int_bits z (int v + 1)) + 2 ^ z - 1, r')"
    "reader_ok r'" "pending_bits r' = rest" by auto
  have "(if z = 0 then 0 else bits_val (int_bits z (int v + 1)) + 2 ^ z - 1) = int v"
    using ue_encode_shape(2)[of v] by (auto simp: z_def)
  with r' show ?thesis by auto
qed

theorem get_uvlc_roundtrip_witness:
  "reader_ok \<lparr>data = [0x28], bytes_remaining = 0, byte_pos = 1, bit_pos = 0,
              nextbits = 0x28, nextbits_cnt = 8\<rparr> \<and> (4::nat) < 2 ^ 16 \<and>
   pending_bits \<lparr>data = [0x28], bytes_remaining = 0, byte_pos = 1, bit_pos = 0,
              nextbits = 0x28, nextbits_cnt = 8\<rparr> = ue_encode 4 @ [False, False, False] \<and>
   (\<exists>r'. get_uvlc \<lparr>data = [0x28], bytes_remaining = 0, byte_pos = 1, bit_pos = 0,
              nextbits = 0x28, nextbits_cnt = 8\<rparr> = Inr (int 4, r') \<and> reader_ok r' \<and>
         pending_bits r' = [False, False, False])"
proof -
  let ?r = "\<lparr>data = [0x28], bytes_remaining = 0, byte_pos = 1, bit_pos = 0,
              nextbits = 0x28, nextbits_cnt = 8\<rparr>"
  have ok: "reader_ok ?r" by (simp add: reader_ok_def)
  have pb: "pending_bits ?r = ue_encode 4 @ [False, False, False]" by code_simp
  have lt: "(4::nat) < 2 ^ 16" by simp
  from get_uvlc_roundtrip[OF ok lt pb] ok pb lt show ?thesis by blast
qed

text \<open>
  Claim C4. When the next 21 pending bits of a reader are all zero, \<^verbatim>\<open>get_uvlc\<close> returns the
  sentinel \<^verbatim>\<open>UVLC_ERROR\<close> (it neither raises nor loops), and \<^verbatim>\<open>get_svlc\<close> returns the same
  sentinel.
\<close>

theorem get_uvlc_too_many_zeros:
  assumes "reader_ok r" and "take 21 (pending_bits r) = replicate 21 False"
  shows "\<exists>r'. get_uvlc r = Inr (UVLC_ERROR, r') \<and> get_svlc r = Inr (UVLC_ERROR, r')"
proof -
  have "pending_bits r = replicate (Suc MAX_UVLC_LEADING_ZEROS) False @ drop 21 (pending_bits r)"
    using assms(2) append_take_drop_id[of 21 "pending_bits r"]
    by (simp add: MAX_UVLC_LEADING_ZEROS_def)
  from too_many_zeros[OF assms(1) this] obtain r1 where
    "get_uvlc_from r 0 = Inr (UVLC_ERROR, r1)" by blast
  then show ?thesis by (auto simp: get_uvlc_def get_svlc_def py_bind_def)
qed

theorem get_uvlc_too_many_zeros_witness:
  "reader_ok \<lparr>data = [0, 0, 4], bytes_remaining = 0, byte_pos = 3, bit_pos = 0,
              nextbits = 4, nextbits_cnt = 24\<rparr> \<and>
   take 21 (pending_bits \<lparr>data = [0, 0, 4], bytes_remaining = 0, byte_pos = 3, bit_pos = 0,
              nextbits = 4, nextbits_cnt = 24\<rparr>) = replicate 21 False \<and>
   (\<exists>r'. get_uvlc \<lparr>data = [0, 0, 4], bytes_remaining = 0, byte_pos = 3, bit_pos = 0,
              nextbits = 4, nextbits_cnt = 24\<rparr> = Inr (UVLC_ERROR, r') \<and>
         get_svlc \<lparr>data = [0, 0, 4], bytes_remaining = 0, byte_pos = 3, bit_pos = 0,
              nextbits = 4, nextbits_cnt = 24\<rparr> = Inr (UVLC_ERROR, r'))"
proof -
  let ?r = "\<lparr>data = [0, 0, 4], bytes_remaining = 0, byte_pos = 3, bit_pos = 0,
              nextbits = 4, nextbits_cnt = 24\<rparr>"
  have ok: "reader_ok ?r" by (simp add: reader_ok_def)
  have pb: "take 21 (pending_bits ?r) = replicate 21 False" by code_simp
  from get_uvlc_too_many_zeros[OF ok pb] ok pb show ?thesis by blast
qed

text \<open>
  Claim C8. For every 32-bit value \<open>w\<close> stored most significant byte first in a 4-byte buffer
  and every \<open>n\<close> from 1 to 32, on a fresh reader over the buffer \<^verbatim>\<open>get_bits(n)\<close> returns
  the top \<open>n\<close> bits of \<open>w\<close>, a value below \<open>2^n\<close>, and the following \<^verbatim>\<open>get_bits(32 - n)\<close>
  returns the low \<open>32 - n\<close> bits of \<open>w\<close>, a value below \<open>2^(32 - n)\<close>; the first value
  shifted left by \<open>32 - n\<close> and combined by bitwise or with the second is \<open>w\<close>, and the
  two reads consume the buffer exactly.
\<close>

theorem get_bits_split_32:
  assumes "1 \<le> n" and "n \<le> 32"
  shows "\<exists>r0 v1 r1 v2 r2.
           BitReader_init (be_bytes32 w) = Inr r0 \<and>
           get_bits r0 n = Inr (v1, r1) \<and>
           get_bits r1 (32 - n) = Inr (v2, r2) \<and>
           v1 = drop_bit (32 - n) (uint w) \<and> v2 = take_bit (32 - n) (uint w) \<and>
           0 \<le> v1 \<and> v1 < 2 ^ n \<and> 0 \<le> v2 \<and> v2 < 2 ^ (32 - n) \<and>
           push_bit (32 - n) v1 OR v2 = uint w \<and>
           pending_bits r2 = []"
proof -
  let ?P = "int_bits 32 (uint w)"
  let ?v1 = "drop_bit (32 - n) (uint w)"
  let ?v2 = "take_bit (32 - n) (uint w)"
  from BitReader_init_ok[of "be_bytes32 w"] obtain r0 where
    r0: "BitReader_init (be_bytes32 w) = Inr r0" "reader_ok r0" "pending_bits r0 = ?P"
    by (auto simp: byte_bits_be_bytes32)
  have n57: "n \<le> 57" "32 - n \<le> 57" using assms by auto
  have t: "bits_val (take n ?P) = ?v1"
    by (simp add: int_bits32_take(1)[OF assms(2)] bits_val_int_bits drop_bit_uint32[OF assms(2)])
  have d: "bits_val (drop n ?P) = ?v2"
    by (simp add: int_bits32_take(2)[OF assms(2)] bits_val_int_bits)
  from get_bits_ok[OF r0(2) n57(1)] assms r0(3) obtain r1 where
    r1: "get_bits r0 n = Inr (?v1, r1)" "reader_ok r1"
    "pending_bits r1 = drop n ?P" by (auto simp: t)
  from get_bits_ok[OF r1(2) n57(2)] r1(3) obtain r2 where
    r2: "get_bits r1 (32 - n) = Inr (?v2, r2)" "pending_bits r2 = []" by (auto simp: d)
  have b1: "0 \<le> ?v1" "?v1 < 2 ^ n"
    using bits_val_bounds[of "take n ?P"] assms by (simp_all add: t)
  have b2: "0 \<le> ?v2" "?v2 < 2 ^ (32 - n)" by simp_all
  have "push_bit (32 - n) ?v1 + ?v2 = uint w"
    unfolding push_bit_eq_mult drop_bit_eq_div take_bit_eq_mod by (rule div_mult_mod_eq)
  with push_bit_or_add[OF b2] have c: "push_bit (32 - n) ?v1 OR ?v2 = uint w" by simp
  show ?thesis
    by (intro exI[of _ r0] exI[of _ ?v1] exI[of _ r1] exI[of _ ?v2] exI[of _ r2] conjI
        r0(1) r1(1) r2 b1 b2 c refl)
qed

theorem get_bits_split_32_witness:
  "(1::nat) \<le> 12 \<and> (12::nat) \<le> 32 \<and>
   (\<exists>r0 r1 r2.
           BitReader_init (be_bytes32 0xDEADBEEF) = Inr r0 \<and>
           get_bits r0 12 = Inr (0xDEA, r1) \<and>
           get_bits r1 (32 - 12) = Inr (0xDBEEF, r2) \<and>
           push_bit (32 - 12) (0xDEA::int) OR 0xDBEEF = uint (0xDEADBEEF :: 32 word) \<and>
           pending_bits r2 = [])"
proof -
  have a: "drop_bit (32 - 12) (uint (0xDEADBEEF :: 32 word)) = 0xDEA" by simp
  have b: "take_bit (32 - 12) (uint (0xDEADBEEF :: 32 word)) = 0xDBEEF" by simp
  from get_bits_split_32[of 12 "0xDEADBEEF", unfolded a b] show ?thesis by auto
qed

text \<open>
  Claim C10. Whenever \<^verbatim>\<open>get_uvlc\<close> returns, its result is the sentinel \<^verbatim>\<open>UVLC_ERROR\<close> or lies
  between 0 and \<open>2^21 - 2\<close>; the sentinel is negative, so it is none of the decoded values.
\<close>

theorem get_uvlc_result_range:
  assumes "get_uvlc r = Inr (v, r')"
  shows "(v = UVLC_ERROR \<or> (0 \<le> v \<and> v \<le> 2 ^ 21 - 2)) \<and> UVLC_ERROR < 0"
  using get_uvlc_from_range[of 0 r v r'] assms by (simp add: get_uvlc_def UVLC_ERROR_def)

theorem get_uvlc_result_range_witness:
  "get_uvlc \<lparr>data = [0x28], bytes_remaining = 0, byte_pos = 1, bit_pos = 0,
              nextbits = 0x28, nextbits_cnt = 8\<rparr> =
     Inr (4, \<lparr>data = [0x28], bytes_remaining = 0, byte_pos = 1, bit_pos = 0,
              nextbits = 0, nextbits_cnt = 3\<rparr>) \<and>
   ((4::int) = UVLC_ERROR \<or> (0 \<le> (4::int) \<and> (4::int) \<le> 2 ^ 21 - 2)) \<and> UVLC_ERROR < 0"
proof -
  have e: "get_uvlc \<lparr>data = [0x28], bytes_remaining = 0, byte_pos = 1, bit_pos = 0,
              nextbits = 0x28, nextbits_cnt = 8\<rparr> =
     Inr (4, \<lparr>data = [0x28], bytes_remaining = 0, byte_pos = 1, bit_pos = 0,
              nextbits = 0, nextbits_cnt = 3\<rparr>)"
    by code_simp
  from get_uvlc_result_range[OF e] e show ?thesis by simp
qed

section \<open>Claims about the TS demuxer\<close>

text \<open>
  Claim C2, as the code has it. For every input byte buffer, also one shorter than a packet
  or with a truncated last packet: when every packet of the stream holds the header bytes the
  demuxer indexes in it (bytes 1 and 2 behind a sync byte; for the target PID also byte 3,
  byte 4 when the adaptation flag is set, and byte \<open>payload_start + 8\<close> when a unit start
  carries the PES start code), \<^verbatim>\<open>extract_h265_nal_from_ts\<close> completes and returns a NAL
  buffer.
\<close>

theorem demux_completes:
  assumes "list_all header_in_range (ts_packets ts)"
  shows "\<exists>nal. extract_h265_nal_from_ts ts = Inr nal"
  using assms by (simp add: extract_run)

theorem demux_completes_witness:
  "list_all header_in_range (ts_packets [0x47, 0x01, 0x00, 0x10, 1, 2, 3, 4, 5, 6]) \<and>
   (\<exists>nal. extract_h265_nal_from_ts [0x47, 0x01, 0x00, 0x10, 1, 2, 3, 4, 5, 6] = Inr nal) \<and>
   extract_h265_nal_from_ts [0x47, 0x01, 0x00, 0x10, 1, 2, 3, 4, 5, 6] = Inr [1, 2, 3, 4, 5, 6]"
proof -
  have a: "list_all header_in_range (ts_packets [0x47, 0x01, 0x00, 0x10, 1, 2, 3, 4, 5, 6])"
    by code_simp
  have b: "extract_h265_nal_from_ts [0x47, 0x01, 0x00, 0x10, 1, 2, 3, 4, 5, 6] =
      Inr [1, 2, 3, 4, 5, 6]"
    by code_simp
  from demux_completes[OF a] a b show ?thesis by blast
qed

text \<open>
  Claim C2 as stated fails: on the one-byte input \<open>0x47\<close> the demuxer reads byte 1 of a packet
  that has none and raises \<^verbatim>\<open>IndexError\<close>.
\<close>

theorem demux_truncated_counterexample:
  "extract_h265_nal_from_ts [0x47] = Inl IndexError"
  by code_simp

text \<open>
  Claim C6. For every sequence of 188-byte packets, the demuxer gives the same result on the
  whole stream as on the packets with the target PID alone; and its output is the
  concatenation, in packet order, of one piece per packet, where the piece of a packet with
  another PID is empty and every piece is a suffix of its packet, possibly behind the start
  code \<open>00 00 01\<close>.
\<close>

theorem demux_only_target_pid:
  assumes "list_all (\<lambda>p. length p = TS_PACKET_SIZE) ps"
  shows "extract_h265_nal_from_ts (concat ps) =
           extract_h265_nal_from_ts (concat (filter (\<lambda>p. packet_pid p = VIDEO_PID) ps)) \<and>
         (\<forall>nal. extract_h265_nal_from_ts (concat ps) = Inr nal \<longrightarrow>
            (\<exists>cs. length cs = length ps \<and> nal = concat cs \<and>
               (\<forall>i<length ps.
                  (packet_pid (ps ! i) \<noteq> VIDEO_PID \<longrightarrow> cs ! i = []) \<and>
                  (\<exists>k. cs ! i = drop k (ps ! i) \<or> cs ! i = [0, 0, 1] @ drop k (ps ! i)))))"
proof -
  let ?sel = "filter (\<lambda>p. packet_pid p = VIDEO_PID) ps"
  have f: "list_all (\<lambda>p. length p = TS_PACKET_SIZE) ?sel"
    using assms by (auto simp: list_all_iff)
  have 1: "extract_h265_nal_from_ts (concat ps) = extract_h265_nal_from_ts (concat ?sel)"
    by (simp add: extract_run ts_packets_concat[OF assms] ts_packets_concat[OF f]
        list_all_filter_in_range[OF assms] nal_pieces_filter)
  have 2: "\<exists>cs. length cs = length ps \<and> nal = concat cs \<and>
               (\<forall>i<length ps.
                  (packet_pid (ps ! i) \<noteq> VIDEO_PID \<longrightarrow> cs ! i = []) \<and>
                  (\<exists>k. cs ! i = drop k (ps ! i) \<or> cs ! i = [0, 0, 1] @ drop k (ps ! i)))"
    if "extract_h265_nal_from_ts (concat ps) = Inr nal" for nal
  proof -
    from that have nal: "nal = concat (nal_pieces False ps)"
      by (simp add: extract_run ts_packets_concat[OF assms] split: if_splits)
    have "(packet_pid (ps ! i) \<noteq> VIDEO_PID \<longrightarrow> nal_pieces False ps ! i = []) \<and>
          (\<exists>k. nal_pieces False ps ! i = drop k (ps ! i) \<or>
               nal_pieces False ps ! i = [0, 0, 1] @ drop k (ps ! i))"
      if "i < length ps" for i
      using nal_pieces_nth[OF that, of False] by (auto simp: accepted_def)
    with nal show ?thesis by (intro exI[of _ "nal_pieces False ps"]) simp
  qed
  from 1 2 show ?thesis by blast
qed

theorem demux_only_target_pid_witness:
  "list_all (\<lambda>p. length p = TS_PACKET_SIZE)
     [[0x47, 0x01, 0x00, 0x10] @ replicate 184 0xAA,
      [0x47, 0x00, 0x11, 0x10] @ replicate 184 0xBB,
      [0x47, 0x01, 0x00, 0x10] @ replicate 184 (0xCC::byte)] \<and>
   extract_h265_nal_from_ts (concat
     [[0x47, 0x01, 0x00, 0x10] @ replicate 184 0xAA,
      [0x47, 0x00, 0x11, 0x10] @ replicate 184 0xBB,
      [0x47, 0x01, 0x00, 0x10] @ replicate 184 0xCC]) =
   extract_h265_nal_from_ts (concat (filter (\<lambda>p. packet_pid p = VIDEO_PID)
     [[0x47, 0x01, 0x00, 0x10] @ replicate 184 0xAA,
      [0x47, 0x00, 0x11, 0x10] @ replicate 184 0xBB,
      [0x47, 0x01, 0x00, 0x10] @ replicate 184 0xCC])) \<and>
   extract_h265_nal_from_ts (concat
     [[0x47, 0x01, 0x00, 0x10] @ replicate 184 0xAA,
      [0x47, 0x00, 0x11, 0x10] @ replicate 184 0xBB,
      [0x47, 0x01, 0x00, 0x10] @ replicate 184 0xCC]) =
   Inr (replicate 184 0xAA @ replicate 184 0xCC)"
proof -
  let ?ps = "[[0x47, 0x01, 0x00, 0x10] @ replicate 184 0xAA,
      [0x47, 0x00, 0x11, 0x10] @ replicate 184 0xBB,
      [0x47, 0x01, 0x00, 0x10] @ replicate 184 (0xCC::byte)]"
  have a: "list_all (\<lambda>p. length p = TS_PACKET_SIZE) ?ps"
    by (simp add: TS_PACKET_SIZE_def)
  have b: "extract_h265_nal_from_ts (concat ?ps) = Inr (replicate 184 0xAA @ replicate 184 0xCC)"
    unfolding extract_run ts_packets_concat[OF a] by (simp add: packet_defs)
  note w = demux_only_target_pid[OF a, THEN conjunct1]
  show ?thesis by (rule conjI[OF a conjI[OF w b]])
qed

text \<open>
  Claim C7, as the code has it. A packet is accepted when it has the sync byte and the target
  PID and its payload starts inside the packet size, that is, before offset 188 behind the
  header and the adaptation field; a detected unit start is an accepted packet with the
  unit-start flag. Let a stream of whole packets be followed by one more packet \<open>p\<close>.
  Whenever the demuxer returns on the longer stream, it returns on the shorter one, and \<open>p\<close>
  appends to that output: nothing when it is not accepted; otherwise its payload, preceded by
  exactly the bytes \<open>00 00 01\<close> when \<open>p\<close> is a unit start and an earlier packet was a
  detected unit start, and by nothing when \<open>p\<close> is the first detected unit start or no unit
  start.
\<close>

theorem demux_start_code:
  assumes "length ts mod TS_PACKET_SIZE = 0" and "p \<noteq> []" and "length p \<le> TS_PACKET_SIZE"
    and "extract_h265_nal_from_ts (ts @ p) = Inr out'"
  shows "\<exists>out. extract_h265_nal_from_ts ts = Inr out \<and>
           out' = out @
             (if accepted p
              then (if unit_start p \<and> list_ex detected_unit_start (ts_packets ts)
                    then [0, 0, 1] else []) @ payload_of p
              else [])"
proof -
  have tp: "ts_packets (ts @ p) = ts_packets ts @ [p]"
    using ts_packets_append[OF assms(1), of p] ts_packets_single[OF assms(2,3)] by simp
  from assms(4) have ok: "list_all header_in_range (ts_packets ts)"
    and out': "out' = concat (nal_pieces False (ts_packets ts @ [p]))"
    by (auto simp: extract_run tp split: if_splits)
  have "extract_h265_nal_from_ts ts = Inr (concat (nal_pieces False (ts_packets ts)))"
    using ok by (simp add: extract_run)
  then show ?thesis
    using out' by (simp add: nal_pieces_append)
qed

theorem demux_start_code_witness:
  "length ([0x47, 0x41, 0x00, 0x10] @ replicate 184 (0xAA::byte)) mod TS_PACKET_SIZE = 0 \<and>
   length [0x47, 0x41, 0x00, 0x10, 7, 8 :: byte] \<le> TS_PACKET_SIZE \<and>
   extract_h265_nal_from_ts
     (([0x47, 0x41, 0x00, 0x10] @ replicate 184 0xAA) @ [0x47, 0x41, 0x00, 0x10, 7, 8]) =
     Inr (replicate 184 0xAA @ [0, 0, 1, 7, 8]) \<and>
   extract_h265_nal_from_ts ([0x47, 0x41, 0x00, 0x10] @ replicate 184 0xAA) =
     Inr (replicate 184 0xAA) \<and>
   accepted [0x47, 0x41, 0x00, 0x10, 7, 8] \<and> unit_start [0x47, 0x41, 0x00, 0x10, 7, 8] \<and>
   list_ex detected_unit_start (ts_packets ([0x47, 0x41, 0x00, 0x10] @ replicate 184 0xAA)) \<and>
   payload_of [0x47, 0x41, 0x00, 0x10, 7, 8] = [7, 8]"
proof -
  let ?ts = "[0x47, 0x41, 0x00, 0x10] @ replicate 184 (0xAA::byte)"
  let ?p = "[0x47, 0x41, 0x00, 0x10, 7, 8 :: byte]"
  have h1: "length ?ts mod TS_PACKET_SIZE = 0" by (simp add: TS_PACKET_SIZE_def)
  have h2: "?p \<noteq> []" by simp
  have h3: "length ?p \<le> TS_PACKET_SIZE" by (simp add: TS_PACKET_SIZE_def)
  have t1: "ts_packets ?ts = [?ts]"
    by (rule ts_packets_single) (simp_all add: TS_PACKET_SIZE_def)
  have t2: "ts_packets (?ts @ ?p) = [?ts, ?p]"
    using ts_packets_append[OF h1, of ?p] ts_packets_single[OF h2 h3] t1 by simp
  have h4: "extract_h265_nal_from_ts (?ts @ ?p) = Inr (replicate 184 0xAA @ [0, 0, 1, 7, 8])"
    unfolding extract_run t2 by (simp add: packet_defs replicate_3)
  have c: "accepted ?p" "unit_start ?p" "list_ex detected_unit_start (ts_packets ?ts)"
    "payload_of ?p = [7, 8]"
    unfolding t1 by (simp_all add: packet_defs replicate_3)
  have e: "extract_h265_nal_from_ts ?ts = Inr (replicate 184 0xAA)"
    unfolding extract_run t1 by (simp add: packet_defs replicate_3)
  note w = demux_start_code[OF h1 h2 h3 h4]
  from w h1 h3 h4 e c show ?thesis by blast
qed

text \<open>
  Claim C7 as stated fails for a unit start that is not accepted. In the stream of three
  packets below, all with the sync byte and the target PID, the first is a detected unit
  start; the second has the unit-start flag and an adaptation field of length 183, so that
  its payload would start at offset 188 and the demuxer skips the packet before the
  start-code branch; the third continues the unit. The output is the payload of the first
  packet followed by the payload of the third: no \<open>00 00 01\<close> is inserted for the second
  unit start.
\<close>

theorem demux_skipped_unit_start_counterexample:
  "detected_unit_start ([0x47, 0x41, 0x00, 0x10] @ replicate 184 0xAA) \<and>
   length ([0x47, 0x41, 0x00, 0x30, 0xB7] @ replicate 183 (0xFF::byte)) = TS_PACKET_SIZE \<and>
   uint (([0x47, 0x41, 0x00, 0x30, 0xB7] @ replicate 183 (0xFF::byte)) ! 0) = 0x47 \<and>
   packet_pid ([0x47, 0x41, 0x00, 0x30, 0xB7] @ replicate 183 0xFF) = VIDEO_PID \<and>
   unit_start ([0x47, 0x41, 0x00, 0x30, 0xB7] @ replicate 183 0xFF) \<and>
   extract_h265_nal_from_ts
     (([0x47, 0x41, 0x00, 0x10] @ replicate 184 0xAA) @
      ([0x47, 0x41, 0x00, 0x30, 0xB7] @ replicate 183 0xFF) @
      [0x47, 0x01, 0x00, 0x10, 9, 8, 7]) =
     Inr (replicate 184 0xAA @ [9, 8, 7])"
proof -
  let ?p1 = "[0x47, 0x41, 0x00, 0x10] @ replicate 184 (0xAA::byte)"
  let ?p2 = "[0x47, 0x41, 0x00, 0x30, 0xB7] @ replicate 183 (0xFF::byte)"
  let ?p3 = "[0x47, 0x01, 0x00, 0x10, 9, 8, 7 :: byte]"
  have a: "list_all (\<lambda>p. length p = TS_PACKET_SIZE) [?p1, ?p2]"
    by (simp add: TS_PACKET_SIZE_def)
  have h: "length (concat [?p1, ?p2]) mod TS_PACKET_SIZE = 0"
    by (simp add: TS_PACKET_SIZE_def)
  have t3: "ts_packets ?p3 = [?p3]"
    by (rule ts_packets_single) (simp_all add: TS_PACKET_SIZE_def)
  have t: "ts_packets (concat [?p1, ?p2] @ ?p3) = [?p1, ?p2, ?p3]"
    using ts_packets_append[OF h, of ?p3] t3 ts_packets_concat[OF a] by simp
  have e: "extract_h265_nal_from_ts (concat [?p1, ?p2] @ ?p3) = Inr (replicate 184 0xAA @ [9, 8, 7])"
    unfolding extract_run t by (simp add: packet_defs replicate_3)
  have c: "detected_unit_start ?p1" "length ?p2 = TS_PACKET_SIZE" "uint (?p2 ! 0) = 0x47"
    "packet_pid ?p2 = VIDEO_PID" "unit_start ?p2"
    by (simp_all add: packet_defs)
  from e have e': "extract_h265_nal_from_ts (?p1 @ ?p2 @ ?p3) = Inr (replicate 184 0xAA @ [9, 8, 7])"
    by simp
  show ?thesis by (intro conjI c e')
qed

text \<open>
  Claim C9, as the code has it. For every input buffer in which every packet that starts
  with the sync byte has at least 3 bytes and a PID other than the target, the demuxer
  returns the empty buffer and \<^verbatim>\<open>process_ts_file\<close> returns \<^verbatim>\<open>None\<close> from its first test,
  before any reader is built.
\<close>

theorem demux_no_target_not_found:
  assumes "list_all (\<lambda>p. uint (p ! 0) = 0x47 \<longrightarrow> 3 \<le> length p \<and> packet_pid p \<noteq> VIDEO_PID)
             (ts_packets ts)"
  shows "extract_h265_nal_from_ts ts = Inr [] \<and> process_ts_file ts = Inr None"
proof -
  have a: "header_in_range p \<and> \<not> accepted p" if "p \<in> set (ts_packets ts)" for p
    using that assms ts_packets_bounds[OF that]
    by (auto simp: list_all_iff header_in_range_def accepted_def)
  then have ok: "list_all header_in_range (ts_packets ts)" by (simp add: list_all_iff)
  have "concat (nal_pieces s ps) = []" if "\<forall>p\<in>set ps. \<not> accepted p" for s ps
    using that by (induction ps arbitrary: s) auto
  with a have "concat (nal_pieces False (ts_packets ts)) = []" by blast
  with ok have "extract_h265_nal_from_ts ts = Inr []" by (simp add: extract_run)
  then show ?thesis by (simp add: process_ts_file_def py_bind_def)
qed

theorem demux_no_target_not_found_witness:
  "list_all (\<lambda>p. uint (p ! 0) = 0x47 \<longrightarrow> 3 \<le> length p \<and> packet_pid p \<noteq> VIDEO_PID)
     (ts_packets (([0x47, 0x00, 0x11, 0x10] @ replicate 184 0xBB) @ [0x46, 1])) \<and>
   extract_h265_nal_from_ts (([0x47, 0x00, 0x11, 0x10] @ replicate 184 0xBB) @ [0x46, 1]) = Inr [] \<and>
   process_ts_file (([0x47, 0x00, 0x11, 0x10] @ replicate 184 0xBB) @ [0x46, 1]) = Inr None"
proof -
  let ?ts = "[0x47, 0x00, 0x11, 0x10] @ replicate 184 (0xBB::byte)"
  let ?p = "[0x46, 1 :: byte]"
  have h1: "length ?ts mod TS_PACKET_SIZE = 0" by (simp add: TS_PACKET_SIZE_def)
  have t1: "ts_packets ?ts = [?ts]"
    by (rule ts_packets_single) (simp_all add: TS_PACKET_SIZE_def)
  have t3: "ts_packets ?p = [?p]"
    by (rule ts_packets_single) (simp_all add: TS_PACKET_SIZE_def)
  have t2: "ts_packets (?ts @ ?p) = [?ts, ?p]"
    using ts_packets_append[OF h1, of ?p] t3 t1 by simp
  have a: "list_all (\<lambda>p. uint (p ! 0) = 0x47 \<longrightarrow> 3 \<le> length p \<and> packet_pid p \<noteq> VIDEO_PID)
     (ts_packets (?ts @ ?p))"
    unfolding t2 by (simp add: packet_defs)
  from demux_no_target_not_found[OF a] a show ?thesis by blast
qed

text \<open>
  Claim C9 as stated fails: the input \<open>47 00\<close> is one packet whose first PID byte already
  differs from the target's, so no packet matches the target PID; the demuxer reads byte 2,
  which is missing, and \<^verbatim>\<open>process_ts_file\<close> raises \<^verbatim>\<open>IndexError\<close> instead of returning
  \<^verbatim>\<open>None\<close>.
\<close>

theorem demux_no_target_counterexample:
  "ts_packets [0x47, 0x00] = [[0x47, 0x00]] \<and>
   extract_h265_nal_from_ts [0x47, 0x00] = Inl IndexError \<and>
   process_ts_file [0x47, 0x00] = Inl IndexError"
  by code_simp

section \<open>Claims about the SEI field decoder\<close>

text \<open>
  Claim C5, as the code has it. For a reader whose byte position and remaining-byte count
  agree with its buffer, \<^verbatim>\<open>read_sei_6dof\<close> has exactly these outcomes, decided by the bits the
  reader has still to deliver. With fewer than 128 bits it raises \<^verbatim>\<open>ValueError\<close> while
  reading the tag. With at least 128 bits whose first 16 characters are not the tag, it
  returns \<^verbatim>\<open>None\<close> and the empty sequence, having consumed the 16 characters. When the tag
  matches, let \<open>c\<close> be the 16-bit camera count at bit offset 130: with fewer than
  \<open>240 + 72 * c\<close> bits the call raises \<^verbatim>\<open>ValueError\<close> and hands back no record; otherwise
  it returns a valid record in which every scalar field holds the value read from its
  position in the stream, none of the four optional fields being \<^verbatim>\<open>None\<close>, with
  \<^verbatim>\<open>camera_number\<close> equal to \<open>c\<close>, and a sequence of exactly \<open>c\<close> rectangles numbered from 1
  to \<open>c\<close> (none when \<open>c\<close> is 0), having consumed \<open>240 + 72 * c\<close> bits. So whenever the
  call returns, it returns either no record and no rectangle or a completely filled record
  with its \<^verbatim>\<open>camera_number\<close> rectangles; an input that ends inside the record makes the call
  raise.
\<close>

theorem read_sei_6dof_outcomes:
  assumes "reader_ok r"
  shows "if length (pending_bits r) < 128 then read_sei_6dof r = Inl ValueError
         else if bits_chars 16 (pending_bits r) \<noteq> ''_6dof_extension_''
         then \<exists>r'. read_sei_6dof r = Inr ((None, []), r') \<and> reader_ok r' \<and>
                    pending_bits r' = drop 128 (pending_bits r)
         else if length (pending_bits r) < 240 + 72 * camera_count (pending_bits r)
         then read_sei_6dof r = Inl ValueError
         else \<exists>sei fovs r'.
                read_sei_6dof r = Inr ((Some sei, fovs), r') \<and>
                sei = decoded_sei (pending_bits r) \<and>
                fovs = decoded_fovs 0 (camera_count (pending_bits r)) (drop 240 (pending_bits r)) \<and>
                is_valid sei \<and> stitching_layout sei \<noteq> None \<and> camera_model sei \<noteq> None \<and>
                background_depth_flag sei \<noteq> None \<and> arrangement_flag sei \<noteq> None \<and>
                camera_number sei = int (camera_count (pending_bits r)) \<and>
                length fovs = camera_count (pending_bits r) \<and>
                map fov_id fovs = map (\<lambda>j. int j + 1) [0..<camera_count (pending_bits r)] \<and>
                reader_ok r' \<and>
                pending_bits r' =
                  drop (240 + 72 * camera_count (pending_bits r)) (pending_bits r)"
proof -
  let ?P = "pending_bits r"
  let ?cam = "camera_count ?P"
  let ?s1 = "SEI_6DOF_init\<lparr>uuid_string := bits_chars 16 ?P\<rparr>"
  show ?thesis
  proof (cases "length ?P < 128")
    case True
    then have "read_uuid 16 r SEI_6DOF_init = Inl ValueError"
      using read_uuid_short[OF assms, of 16] by simp
    with True show ?thesis by (simp add: read_sei_6dof_def py_bind_Inl)
  next
    case long: False
    then have "8 * 16 \<le> length ?P" by simp
    from read_uuid_ok[OF assms this, of SEI_6DOF_init] obtain r1 where
      r1: "read_uuid 16 r SEI_6DOF_init = Inr (?s1, r1)" "reader_ok r1"
      "pending_bits r1 = drop 128 ?P"
      by (auto simp: SEI_6DOF_init_def)
    have v: "is_valid ?s1 \<longleftrightarrow> bits_chars 16 ?P = ''_6dof_extension_''"
      by (simp add: is_valid_def)
    show ?thesis
    proof (cases "bits_chars 16 ?P = ''_6dof_extension_''")
      case False
      with v have "read_sei_6dof r = Inr ((None, []), r1)"
        by (simp add: read_sei_6dof_def r1(1) py_bind_Inr)
      with long False r1 show ?thesis by simp
    next
      case tag: True
      with v have valid: "is_valid ?s1" by simp
      have step1: "read_sei_6dof r =
          py_bind (read_sei_header r1 ?s1) (\<lambda>(sei, r).
          py_bind (read_fovs (nat (camera_number sei)) r []) (\<lambda>(fov_info_array, r).
            Inr ((Some sei, fov_info_array), r)))"
        using valid by (simp add: read_sei_6dof_def r1(1) py_bind_Inr)
      show ?thesis
      proof (cases "length ?P < 240")
        case True
        then have "length (pending_bits r1) < sum_list header_widths"
          by (simp add: r1(3) header_widths_props)
        from read_fields_short[OF r1(2) header_widths_props(1) this]
        have "read_sei_6dof r = Inl ValueError"
          by (simp add: step1 read_sei_header_fields py_bind_Inl)
        with long tag True show ?thesis by simp
      next
        case hdr: False
        then have "sum_list header_widths \<le> length (pending_bits r1)"
          by (simp add: r1(3) header_widths_props)
        from read_fields_ok[OF r1(2) header_widths_props(1) this] obtain r2 where
          r2: "read_fields header_widths r1 = Inr (field_vals header_widths (drop 128 ?P), r2)"
          "reader_ok r2" "pending_bits r2 = drop 240 ?P"
          by (auto simp: r1(3) header_widths_props)
        have h: "read_sei_header r1 ?s1 = Inr (decoded_sei ?P, r2)"
          by (simp add: read_sei_header_fields r2(1) py_bind_Inr decoded_sei_def)
        have cam: "nat (camera_number (decoded_sei ?P)) = ?cam"
          by (simp add: decoded_sei_props camera_count_def)
        have camn: "camera_number (decoded_sei ?P) = int ?cam"
          using bits_val_bounds[of "take 16 (drop 130 ?P)"]
          by (simp add: decoded_sei_props camera_count_def)
        have step2: "read_sei_6dof r =
            py_bind (read_fovs ?cam r2 []) (\<lambda>(fov_info_array, r).
              Inr ((Some (decoded_sei ?P), fov_info_array), r))"
          by (simp add: step1 h py_bind_Inr cam)
        show ?thesis
        proof (cases "length ?P < 240 + 72 * ?cam")
          case True
          with hdr have "length (pending_bits r2) < 72 * ?cam" by (simp add: r2(3))
          from read_fovs_short[OF r2(2) this]
          have "read_sei_6dof r = Inl ValueError" by (simp add: step2 py_bind_Inl)
          with long tag True show ?thesis by simp
        next
          case False
          with hdr have "72 * ?cam \<le> length (pending_bits r2)" by (simp add: r2(3))
          from read_fovs_ok[OF r2(2) this, of "[]"] obtain r3 where
            r3: "read_fovs ?cam r2 [] = Inr (decoded_fovs 0 ?cam (drop 240 ?P), r3)"
            "reader_ok r3" "pending_bits r3 = drop (72 * ?cam) (drop 240 ?P)"
            by (auto simp: r2(3))
          have res: "read_sei_6dof r =
              Inr ((Some (decoded_sei ?P), decoded_fovs 0 ?cam (drop 240 ?P)), r3)"
            by (simp add: step2 r3(1) py_bind_Inr)
          have val: "is_valid (decoded_sei ?P)"
            by (simp add: is_valid_def decoded_sei_props tag)
          have ids: "map fov_id (decoded_fovs 0 ?cam (drop 240 ?P)) =
              map (\<lambda>j. int j + 1) [0..<?cam]"
            using fov_ids_decoded_fovs[of 0 ?cam "drop 240 ?P"] by simp
          have pb: "pending_bits r3 = drop (240 + 72 * ?cam) ?P"
            by (simp add: r3(3) add.commute)
          have "\<exists>sei fovs r'.
                read_sei_6dof r = Inr ((Some sei, fovs), r') \<and>
                sei = decoded_sei ?P \<and>
                fovs = decoded_fovs 0 ?cam (drop 240 ?P) \<and>
                is_valid sei \<and> stitching_layout sei \<noteq> None \<and> camera_model sei \<noteq> None \<and>
                background_depth_flag sei \<noteq> None \<and> arrangement_flag sei \<noteq> None \<and>
                camera_number sei = int ?cam \<and>
                length fovs = ?cam \<and>
                map fov_id fovs = map (\<lambda>j. int j + 1) [0..<?cam] \<and>
                reader_ok r' \<and>
                pending_bits r' = drop (240 + 72 * ?cam) ?P"
            by (intro exI[of _ "decoded_sei ?P"] exI[of _ "decoded_fovs 0 ?cam (drop 240 ?P)"]
                exI[of _ r3] conjI res refl val decoded_sei_props camn length_decoded_fovs ids
                r3(2) pb)
          with long tag False show ?thesis by simp
        qed
      qed
    qed
  qed
qed

theorem read_sei_6dof_outcomes_witness:
  "reader_ok
     \<lparr>data = [0x5F, 0x36, 0x64, 0x6F, 0x66, 0x5F, 0x65, 0x78, 0x74, 0x65, 0x6E, 0x73, 0x69, 0x6F,
         0x6E, 0x5F, 0x40, 0x00, 0x48, 0x3C, 0x04, 0x10, 0xE2, 0x0F, 0x01, 0x04, 0x38, 0x82,
         0x12, 0xD0, 0x00, 0x00, 0x80, 0x00, 0x40, 0xF0, 0x20, 0x87, 0x10],
      bytes_remaining = 31, byte_pos = 8, bit_pos = 0,
      nextbits = 0x5F36646F665F6578, nextbits_cnt = 64\<rparr> \<and>
   (\<exists>r'. read_sei_6dof
     \<lparr>data = [0x5F, 0x36, 0x64, 0x6F, 0x66, 0x5F, 0x65, 0x78, 0x74, 0x65, 0x6E, 0x73, 0x69, 0x6F,
         0x6E, 0x5F, 0x40, 0x00, 0x48, 0x3C, 0x04, 0x10, 0xE2, 0x0F, 0x01, 0x04, 0x38, 0x82,
         0x12, 0xD0, 0x00, 0x00, 0x80, 0x00, 0x40, 0xF0, 0x20, 0x87, 0x10],
      bytes_remaining = 31, byte_pos = 8, bit_pos = 0,
      nextbits = 0x5F36646F665F6578, nextbits_cnt = 64\<rparr> =
     Inr ((Some
        \<lparr>uuid_string = ''_6dof_extension_'', stitching_layout = Some 1, camera_number = 1,
         camera_model = Some 0, camera_resolution_x = 1920, camera_resolution_y = 1080,
         video_resolution_x = 1920, video_resolution_y = 1080, texture_padding_size = 4,
         background_texture_flag = 0, background_depth_flag = Some 0,
         arrangement_flag = Some 0, horizontal_half_fov = 90, texture_top_left_x = [],
         texture_top_left_y = [], texture_bottom_right_x = [], texture_bottom_right_y = []\<rparr>,
        [\<lparr>fov_id = 1, fov_x = 0, fov_y = 0, fov_width = 960, fov_height = 1080\<rparr>]), r') \<and>
      pending_bits r' = []) \<and>
   reader_ok
     \<lparr>data = [0x5F, 0x36, 0x64, 0x6F, 0x66, 0x5F, 0x65, 0x78, 0x74, 0x65, 0x6E, 0x73, 0x69, 0x6F,
         0x6E, 0x5F, 0x80, 0x00, 0x18, 0x14, 0x04, 0x07, 0x82, 0x0A, 0x01, 0x02, 0xD0, 0x83,
         0xF9, 0x68],
      bytes_remaining = 22, byte_pos = 8, bit_pos = 0,
      nextbits = 0x5F36646F665F6578, nextbits_cnt = 64\<rparr> \<and>
   (\<exists>r'. read_sei_6dof
     \<lparr>data = [0x5F, 0x36, 0x64, 0x6F, 0x66, 0x5F, 0x65, 0x78, 0x74, 0x65, 0x6E, 0x73, 0x69, 0x6F,
         0x6E, 0x5F, 0x80, 0x00, 0x18, 0x14, 0x04, 0x07, 0x82, 0x0A, 0x01, 0x02, 0xD0, 0x83,
         0xF9, 0x68],
      bytes_remaining = 22, byte_pos = 8, bit_pos = 0,
      nextbits = 0x5F36646F665F6578, nextbits_cnt = 64\<rparr> =
     Inr ((Some
        \<lparr>uuid_string = ''_6dof_extension_'', stitching_layout = Some 2, camera_number = 0,
         camera_model = Some 1, camera_resolution_x = 640, camera_resolution_y = 480,
         video_resolution_x = 1280, video_resolution_y = 720, texture_padding_size = 7,
         background_texture_flag = 1, background_depth_flag = Some 1,
         arrangement_flag = Some 1, horizontal_half_fov = 45, texture_top_left_x = [],
         texture_top_left_y = [], texture_bottom_right_x = [], texture_bottom_right_y = []\<rparr>,
        []), r') \<and>
      pending_bits r' = []) \<and>
   reader_ok
     \<lparr>data = [0x5F, 0x36, 0x64, 0x6F, 0x66, 0x5F, 0x65, 0x78, 0x74, 0x65, 0x6E, 0x73, 0x69, 0x6F,
         0x6E, 0x58, 0x40],
      bytes_remaining = 9, byte_pos = 8, bit_pos = 0,
      nextbits = 0x5F36646F665F6578, nextbits_cnt = 64\<rparr> \<and>
   (\<exists>r'. read_sei_6dof
     \<lparr>data = [0x5F, 0x36, 0x64, 0x6F, 0x66, 0x5F, 0x65, 0x78, 0x74, 0x65, 0x6E, 0x73, 0x69, 0x6F,
         0x6E, 0x58, 0x40],
      bytes_remaining = 9, byte_pos = 8, bit_pos = 0,
      nextbits = 0x5F36646F665F6578, nextbits_cnt = 64\<rparr> =
     Inr ((None, []), r') \<and>
      pending_bits r' = [False, True, False, False, False, False, False, False]) \<and>
   reader_ok
     \<lparr>data = [0x5F, 0x36, 0x64, 0x6F, 0x66, 0x5F, 0x65, 0x78, 0x74, 0x65, 0x6E, 0x73, 0x69, 0x6F,
         0x6E],
      bytes_remaining = 7, byte_pos = 8, bit_pos = 0,
      nextbits = 0x5F36646F665F6578, nextbits_cnt = 64\<rparr> \<and>
   read_sei_6dof
     \<lparr>data = [0x5F, 0x36, 0x64, 0x6F, 0x66, 0x5F, 0x65, 0x78, 0x74, 0x65, 0x6E, 0x73, 0x69, 0x6F,
         0x6E],
      bytes_remaining = 7, byte_pos = 8, bit_pos = 0,
      nextbits = 0x5F36646F665F6578, nextbits_cnt = 64\<rparr> =
     Inl ValueError \<and>
   reader_ok
     \<lparr>data = [0x5F, 0x36, 0x64, 0x6F, 0x66, 0x5F, 0x65, 0x78, 0x74, 0x65, 0x6E, 0x73, 0x69, 0x6F,
         0x6E, 0x5F, 0x40, 0x00, 0x48, 0x3C, 0x04, 0x10, 0xE2, 0x0F, 0x01, 0x04, 0x38, 0x82,
         0x12, 0xD0, 0x00, 0x00, 0x80, 0x00, 0x40, 0xF0, 0x20, 0x87],
      bytes_remaining = 30, byte_pos = 8, bit_pos = 0,
      nextbits = 0x5F36646F665F6578, nextbits_cnt = 64\<rparr> \<and>
   read_sei_6dof
     \<lparr>data = [0x5F, 0x36, 0x64, 0x6F, 0x66, 0x5F, 0x65, 0x78, 0x74, 0x65, 0x6E, 0x73, 0x69, 0x6F,
         0x6E, 0x5F, 0x40, 0x00, 0x48, 0x3C, 0x04, 0x10, 0xE2, 0x0F, 0x01, 0x04, 0x38, 0x82,
         0x12, 0xD0, 0x00, 0x00, 0x80, 0x00, 0x40, 0xF0, 0x20, 0x87],
      bytes_remaining = 30, byte_pos = 8, bit_pos = 0,
      nextbits = 0x5F36646F665F6578, nextbits_cnt = 64\<rparr> =
     Inl ValueError"
proof -
  let ?r1 = "\<lparr>data = [0x5F, 0x36, 0x64, 0x6F, 0x66, 0x5F, 0x65, 0x78, 0x74, 0x65, 0x6E, 0x73, 0x69, 0x6F,
         0x6E, 0x5F, 0x40, 0x00, 0x48, 0x3C, 0x04, 0x10, 0xE2, 0x0F, 0x01, 0x04, 0x38, 0x82,
         0x12, 0xD0, 0x00, 0x00, 0x80, 0x00, 0x40, 0xF0, 0x20, 0x87, 0x10],
      bytes_remaining = 31, byte_pos = 8, bit_pos = 0,
      nextbits = 0x5F36646F665F6578, nextbits_cnt = 64\<rparr>"
  let ?r0 = "\<lparr>data = [0x5F, 0x36, 0x64, 0x6F, 0x66, 0x5F, 0x65, 0x78, 0x74, 0x65, 0x6E, 0x73, 0x69, 0x6F,
         0x6E, 0x5F, 0x80, 0x00, 0x18, 0x14, 0x04, 0x07, 0x82, 0x0A, 0x01, 0x02, 0xD0, 0x83,
         0xF9, 0x68],
      bytes_remaining = 22, byte_pos = 8, bit_pos = 0,
      nextbits = 0x5F36646F665F6578, nextbits_cnt = 64\<rparr>"
  let ?rn = "\<lparr>data = [0x5F, 0x36, 0x64, 0x6F, 0x66, 0x5F, 0x65, 0x78, 0x74, 0x65, 0x6E, 0x73, 0x69, 0x6F,
         0x6E, 0x58, 0x40],
      bytes_remaining = 9, byte_pos = 8, bit_pos = 0,
      nextbits = 0x5F36646F665F6578, nextbits_cnt = 64\<rparr>"
  let ?rs = "\<lparr>data = [0x5F, 0x36, 0x64, 0x6F, 0x66, 0x5F, 0x65, 0x78, 0x74, 0x65, 0x6E, 0x73, 0x69, 0x6F,
         0x6E],
      bytes_remaining = 7, byte_pos = 8, bit_pos = 0,
      nextbits = 0x5F36646F665F6578, nextbits_cnt = 64\<rparr>"
  let ?rt = "\<lparr>data = [0x5F, 0x36, 0x64, 0x6F, 0x66, 0x5F, 0x65, 0x78, 0x74, 0x65, 0x6E, 0x73, 0x69, 0x6F,
         0x6E, 0x5F, 0x40, 0x00, 0x48, 0x3C, 0x04, 0x10, 0xE2, 0x0F, 0x01, 0x04, 0x38, 0x82,
         0x12, 0xD0, 0x00, 0x00, 0x80, 0x00, 0x40, 0xF0, 0x20, 0x87],
      bytes_remaining = 30, byte_pos = 8, bit_pos = 0,
      nextbits = 0x5F36646F665F6578, nextbits_cnt = 64\<rparr>"
  have ok1: "reader_ok ?r1" by (simp add: reader_ok_def)
  have ok0: "reader_ok ?r0" by (simp add: reader_ok_def)
  have okn: "reader_ok ?rn" by (simp add: reader_ok_def)
  have oks: "reader_ok ?rs" by (simp add: reader_ok_def)
  have okt: "reader_ok ?rt" by (simp add: reader_ok_def)
  have len1: "length (pending_bits ?r1) = 312" by (simp add: length_pending_bits)
  have tag1: "bits_chars 16 (pending_bits ?r1) = ''_6dof_extension_''" by code_simp
  have cam1: "camera_count (pending_bits ?r1) = 1" by code_simp
  have sei1: "decoded_sei (pending_bits ?r1) =
        \<lparr>uuid_string = ''_6dof_extension_'', stitching_layout = Some 1, camera_number = 1,
         camera_model = Some 0, camera_resolution_x = 1920, camera_resolution_y = 1080,
         video_resolution_x = 1920, video_resolution_y = 1080, texture_padding_size = 4,
         background_texture_flag = 0, background_depth_flag = Some 0,
         arrangement_flag = Some 0, horizontal_half_fov = 90, texture_top_left_x = [],
         texture_top_left_y = [], texture_bottom_right_x = [], texture_bottom_right_y = []\<rparr>"
    by code_simp
  have fov1: "decoded_fovs 0 1 (drop 240 (pending_bits ?r1)) =
        [\<lparr>fov_id = 1, fov_x = 0, fov_y = 0, fov_width = 960, fov_height = 1080\<rparr>]"
    by code_simp
  note a1 = read_sei_6dof_outcomes[OF ok1, unfolded len1 tag1 cam1 sei1 fov1]
  have w1: "\<exists>r'. read_sei_6dof ?r1 =
     Inr ((Some
        \<lparr>uuid_string = ''_6dof_extension_'', stitching_layout = Some 1, camera_number = 1,
         camera_model = Some 0, camera_resolution_x = 1920, camera_resolution_y = 1080,
         video_resolution_x = 1920, video_resolution_y = 1080, texture_padding_size = 4,
         background_texture_flag = 0, background_depth_flag = Some 0,
         arrangement_flag = Some 0, horizontal_half_fov = 90, texture_top_left_x = [],
         texture_top_left_y = [], texture_bottom_right_x = [], texture_bottom_right_y = []\<rparr>,
        [\<lparr>fov_id = 1, fov_x = 0, fov_y = 0, fov_width = 960, fov_height = 1080\<rparr>]), r') \<and>
      pending_bits r' = []"
    using a1 len1 by auto
  have len0: "length (pending_bits ?r0) = 240" by (simp add: length_pending_bits)
  have tag0: "bits_chars 16 (pending_bits ?r0) = ''_6dof_extension_''" by code_simp
  have cam0: "camera_count (pending_bits ?r0) = 0" by code_simp
  have sei0: "decoded_sei (pending_bits ?r0) =
        \<lparr>uuid_string = ''_6dof_extension_'', stitching_layout = Some 2, camera_number = 0,
         camera_model = Some 1, camera_resolution_x = 640, camera_resolution_y = 480,
         video_resolution_x = 1280, video_resolution_y = 720, texture_padding_size = 7,
         background_texture_flag = 1, background_depth_flag = Some 1,
         arrangement_flag = Some 1, horizontal_half_fov = 45, texture_top_left_x = [],
         texture_top_left_y = [], texture_bottom_right_x = [], texture_bottom_right_y = []\<rparr>"
    by code_simp
  note a0 = read_sei_6dof_outcomes[OF ok0, unfolded len0 tag0 cam0 sei0]
  have w0: "\<exists>r'. read_sei_6dof ?r0 =
     Inr ((Some
        \<lparr>uuid_string = ''_6dof_extension_'', stitching_layout = Some 2, camera_number = 0,
         camera_model = Some 1, camera_resolution_x = 640, camera_resolution_y = 480,
         video_resolution_x = 1280, video_resolution_y = 720, texture_padding_size = 7,
         background_texture_flag = 1, background_depth_flag = Some 1,
         arrangement_flag = Some 1, horizontal_half_fov = 45, texture_top_left_x = [],
         texture_top_left_y = [], texture_bottom_right_x = [], texture_bottom_right_y = []\<rparr>,
        []), r') \<and>
      pending_bits r' = []"
    using a0 len0 by auto
  have lenn: "length (pending_bits ?rn) = 136" by (simp add: length_pending_bits)
  have tagn: "bits_chars 16 (pending_bits ?rn) = ''_6dof_extensionX''" by code_simp
  have restn: "drop 128 (pending_bits ?rn) =
      [False, True, False, False, False, False, False, False]" by code_simp
  note an = read_sei_6dof_outcomes[OF okn, unfolded lenn tagn restn]
  have wn: "\<exists>r'. read_sei_6dof ?rn = Inr ((None, []), r') \<and>
      pending_bits r' = [False, True, False, False, False, False, False, False]"
    using an by auto
  have lens: "length (pending_bits ?rs) = 120" by (simp add: length_pending_bits)
  note as = read_sei_6dof_outcomes[OF oks, unfolded lens]
  have ws: "read_sei_6dof ?rs = Inl ValueError"
    using as by simp
  have lent: "length (pending_bits ?rt) = 304" by (simp add: length_pending_bits)
  have tagt: "bits_chars 16 (pending_bits ?rt) = ''_6dof_extension_''" by code_simp
  have camt: "camera_count (pending_bits ?rt) = 1" by code_simp
  note at = read_sei_6dof_outcomes[OF okt, unfolded lent tagt camt]
  have wt: "read_sei_6dof ?rt = Inl ValueError"
    using at by simp
  show ?thesis
    by (intro conjI ok1 w1 ok0 w0 okn wn oks ws okt wt)
qed

text \<open>
  Claim C5 as stated fails: a reader over the 16 bytes of the tag and nothing more reads a
  matching tag, and the next read, of the 2-bit layout, finds no bits and raises
  \<^verbatim>\<open>ValueError\<close>. The tag matches and no record is returned.
\<close>

theorem read_sei_6dof_tag_only_counterexample:
  "BitReader_init [0x5F, 0x36, 0x64, 0x6F, 0x66, 0x5F, 0x65, 0x78, 0x74, 0x65, 0x6E, 0x73, 0x69, 0x6F,
       0x6E, 0x5F] =
     Inr \<lparr>data = [0x5F, 0x36, 0x64, 0x6F, 0x66, 0x5F, 0x65, 0x78, 0x74, 0x65, 0x6E, 0x73, 0x69, 0x6F,
         0x6E, 0x5F],
      bytes_remaining = 8, byte_pos = 8, bit_pos = 0,
      nextbits = 0x5F36646F665F6578, nextbits_cnt = 64\<rparr> \<and>
   read_uuid 16
     \<lparr>data = [0x5F, 0x36, 0x64, 0x6F, 0x66, 0x5F, 0x65, 0x78, 0x74, 0x65, 0x6E, 0x73, 0x69, 0x6F,
         0x6E, 0x5F],
      bytes_remaining = 8, byte_pos = 8, bit_pos = 0,
      nextbits = 0x5F36646F665F6578, nextbits_cnt = 64\<rparr>
     SEI_6DOF_init =
     Inr (SEI_6DOF_init\<lparr>uuid_string := ''_6dof_extension_''\<rparr>,
          \<lparr>data = [0x5F, 0x36, 0x64, 0x6F, 0x66, 0x5F, 0x65, 0x78, 0x74, 0x65, 0x6E, 0x73, 0x69, 0x6F,
         0x6E, 0x5F],
      bytes_remaining = 0, byte_pos = 16, bit_pos = 0,
      nextbits = 0, nextbits_cnt = 0\<rparr>) \<and>
   is_valid (SEI_6DOF_init\<lparr>uuid_string := ''_6dof_extension_''\<rparr>) \<and>
   read_sei_6dof
     \<lparr>data = [0x5F, 0x36, 0x64, 0x6F, 0x66, 0x5F, 0x65, 0x78, 0x74, 0x65, 0x6E, 0x73, 0x69, 0x6F,
         0x6E, 0x5F],
      bytes_remaining = 8, byte_pos = 8, bit_pos = 0,
      nextbits = 0x5F36646F665F6578, nextbits_cnt = 64\<rparr> =
     Inl ValueError"
  by code_simp

end
